theory Spec2Isabelle
  imports Complex_Main
begin

section \<open>Numeric library operations used by pycalib.plotting\<close>

text \<open>
  The module \<open>pycalib/plotting.py\<close> computes numeric series with numpy and scipy and then
  hands them to matplotlib. The drawing calls are left out; every array the functions
  compute before drawing is a field of the result of the function's model.

  Floating-point numbers are modelled as exact reals, so rounding is not part of the
  model; the range of the doubles is, where \<open>logsumexp\<close> takes exponentials. A numpy
  operation that leaves the finite numbers gives an infinity or NaN (with a warning, not
  an exception): the values of the type \<open>fval\<close>. A raised Python exception
  is the \<open>Inl\<close> branch of a sum type. Labels are integers, a probability array is a
  list of rows. The option \<open>show_ece\<close> and the other calls into \<open>pycalib.scoring\<close> and
  \<open>pycalib.texfig\<close> only feed the drawing.
\<close>

datatype error = ValueError | ZeroDivisionError | IndexError | AttributeError

datatype fval = Fin real | PosInf | NegInf | NaN

text \<open>Sequencing of computations that may raise.\<close>

definition bind_err :: "error + 'a \<Rightarrow> ('a \<Rightarrow> error + 'b) \<Rightarrow> error + 'b" where
  "bind_err m f = (case m of Inl e \<Rightarrow> Inl e | Inr v \<Rightarrow> f v)"

fun map_err :: "('a \<Rightarrow> error + 'b) \<Rightarrow> 'a list \<Rightarrow> error + 'b list" where
  "map_err f [] = Inr []"
| "map_err f (x # xs) =
     (case f x of Inl e \<Rightarrow> Inl e
      | Inr v \<Rightarrow> (case map_err f xs of Inl e \<Rightarrow> Inl e | Inr vs \<Rightarrow> Inr (v # vs)))"

text \<open>
  \<open>1 / n\<close> on Python numbers, as in \<open>1 / n_classes\<close>: a zero divisor raises.
\<close>

definition py_recip :: "nat \<Rightarrow> error + real" where
  "py_recip n = (if n = 0 then Inl ZeroDivisionError else Inr (1 / real n))"

text \<open>
  \<open>np.linspace(start, stop, num)\<close> with the default \<open>endpoint=True\<close>: \<open>num\<close> samples
  \<open>start + i * step\<close> with \<open>step = (stop - start) / (num - 1)\<close>, the last one set to
  \<open>stop\<close>; a single sample is \<open>start\<close>; no sample for \<open>num = 0\<close>.
\<close>

definition linspace :: "real \<Rightarrow> real \<Rightarrow> nat \<Rightarrow> real list" where
  "linspace start stop num =
     (if num = 0 then []
      else if num = 1 then [start]
      else map (\<lambda>i. start + real i * ((stop - start) / real (num - 1))) [0..<num - 1] @ [stop])"

text \<open>
  \<open>np.max\<close> and \<open>np.min\<close> of a one-dimensional array: a reduction without identity, which
  raises ValueError on an empty array.
\<close>

definition np_max :: "real list \<Rightarrow> error + real" where
  "np_max xs = (case xs of [] \<Rightarrow> Inl ValueError | x # r \<Rightarrow> Inr (fold max r x))"

definition np_min :: "real list \<Rightarrow> error + real" where
  "np_min xs = (case xs of [] \<Rightarrow> Inl ValueError | x # r \<Rightarrow> Inr (fold min r x))"

text \<open>
  \<open>np.argmax\<close>: the index of the first occurrence of the maximum; ValueError on an empty
  array. The scan keeps the best index and value seen so far and replaces them only on a
  strictly larger element.
\<close>

fun argmax_scan :: "nat \<Rightarrow> real \<Rightarrow> nat \<Rightarrow> real list \<Rightarrow> nat" where
  "argmax_scan bi bv i [] = bi"
| "argmax_scan bi bv i (x # xs) =
     (if bv < x then argmax_scan i x (Suc i) xs else argmax_scan bi bv (Suc i) xs)"

definition np_argmax :: "real list \<Rightarrow> error + nat" where
  "np_argmax xs = (case xs of [] \<Rightarrow> Inl ValueError | x # r \<Rightarrow> Inr (argmax_scan 0 x 1 r))"

text \<open>\<open>np.max(p_pred, axis=1)\<close> and \<open>np.argmax(p_pred, axis=1)\<close>: one reduction per row.\<close>

definition max_axis1 :: "real list list \<Rightarrow> error + real list" where
  "max_axis1 p_pred = map_err np_max p_pred"

definition argmax_axis1 :: "real list list \<Rightarrow> error + nat list" where
  "argmax_axis1 p_pred = map_err np_argmax p_pred"

text \<open>\<open>len(np.unique(y))\<close>: the sorted distinct labels, counted.\<close>

definition np_unique :: "int list \<Rightarrow> int list" where
  "np_unique y = sort (remdups y)"

text \<open>
  \<open>np.equal(a, b)\<close> on one-dimensional arrays: elementwise, an array of length one is
  broadcast against the other, any other length mismatch raises.
\<close>

definition np_equal :: "int list \<Rightarrow> int list \<Rightarrow> error + bool list" where
  "np_equal a b =
     (if length a = length b then Inr (map2 (=) a b)
      else if length a = 1 then Inr (map (\<lambda>v. hd a = v) b)
      else if length b = 1 then Inr (map (\<lambda>v. v = hd b) a)
      else Inl ValueError)"

text \<open>
  Boolean-mask indexing \<open>a[mask]\<close>: the elements at the positions where the mask is true;
  a mask of another length raises IndexError.
\<close>

definition mask_select :: "'a list \<Rightarrow> bool list \<Rightarrow> error + 'a list" where
  "mask_select a m =
     (if length m = length a then Inr (map fst (filter snd (zip a m))) else Inl IndexError)"

text \<open>\<open>np.cumsum\<close>: running sums.\<close>

fun cumsum_from :: "'a::monoid_add \<Rightarrow> 'a list \<Rightarrow> 'a list" where
  "cumsum_from acc [] = []"
| "cumsum_from acc (x # xs) = (acc + x) # cumsum_from (acc + x) xs"

definition cumsum :: "'a::monoid_add list \<Rightarrow> 'a list" where
  "cumsum xs = cumsum_from 0 xs"

text \<open>
  numpy's true division of a count by a count: a zero divisor gives NaN for \<open>0 / 0\<close> and
  infinity for a positive count (with a warning, not an exception).
\<close>

definition np_div :: "int \<Rightarrow> int \<Rightarrow> fval" where
  "np_div a b =
     (if b \<noteq> 0 then Fin (real_of_int a / real_of_int b)
      else if a = 0 then NaN
      else PosInf)"

text \<open>
  \<open>np.digitize(x, bins)\<close> with the default \<open>right=False\<close>: for non-decreasing bins the
  number of edges that are at most the value (\<open>searchsorted\<close> from the right); for
  non-increasing bins the length minus that number on the reversed bins; ValueError when
  the bins are neither.
\<close>

definition digitize :: "real list \<Rightarrow> real list \<Rightarrow> error + nat list" where
  "digitize x bins =
     (if sorted bins then Inr (map (\<lambda>v. length (filter (\<lambda>e. e \<le> v) bins)) x)
      else if sorted (rev bins)
        then Inr (map (\<lambda>v. length bins - length (filter (\<lambda>e. e \<le> v) (rev bins))) x)
      else Inl ValueError)"

text \<open>
  \<open>np.bincount(x, weights)\<close> into an array of \<open>m\<close> cells: every sample adds its weight to
  the cell of its bin number. The bin numbers passed here are below \<open>m\<close>.
\<close>

definition bincount :: "nat list \<Rightarrow> 'a::monoid_add list \<Rightarrow> nat \<Rightarrow> 'a list" where
  "bincount x weights m =
     fold (\<lambda>(b, w) acc. acc[b := acc ! b + w]) (zip x weights) (replicate m 0)"

text \<open>\<open>np.diff\<close>: \<open>a[1:] - a[:-1]\<close>.\<close>

definition np_diff :: "'a::minus list \<Rightarrow> 'a list" where
  "np_diff a = map2 (\<lambda>hi lo. hi - lo) (tl a) (butlast a)"

text \<open>
  Python's \<open>int(x)\<close> of a float: truncation towards zero. \<open>np.around(x, decimals)\<close>:
  scale by the power of ten, round to the nearest integer with halves going to the even
  one (\<open>rint\<close>), and scale back; negative \<open>decimals\<close> round left of the decimal point.
\<close>

definition py_int :: "real \<Rightarrow> int" where
  "py_int r = (if 0 \<le> r then \<lfloor>r\<rfloor> else \<lceil>r\<rceil>)"

definition rint :: "real \<Rightarrow> int" where
  "rint v =
     (let f = \<lfloor>v\<rfloor>; d = v - of_int f
      in if d < 1 / 2 then f else if 1 / 2 < d then f + 1 else if even f then f else f + 1)"

definition np_around :: "real \<Rightarrow> int \<Rightarrow> real" where
  "np_around v decimals =
     (if 0 \<le> decimals then of_int (rint (v * 10 ^ nat decimals)) / 10 ^ nat decimals
      else of_int (rint (v / 10 ^ nat (- decimals))) * 10 ^ nat (- decimals))"

text \<open>
  \<open>scipy.stats.binned_statistic(x, values, statistic='mean', bins=n, range=(lo, hi))\<close>,
  following scipy's implementation (\<open>_bin_edges\<close>, \<open>_bin_numbers\<close>, \<open>binned_statistic_dd\<close>).
  A length mismatch of \<open>x\<close> and \<open>values\<close> raises AttributeError. The \<open>n + 1\<close> edges are
  \<open>linspace(lo, hi, n + 1)\<close> (an empty range is widened by one half on each side). A
  sample's bin number is its \<open>digitize\<close> result. With \<open>dedges_min\<close> the smallest
  difference of neighbouring edges (no difference for \<open>n = 0\<close>: ValueError; a zero
  difference: ValueError; a negative one, for a range with start above stop: ValueError,
  from the check of the range or from \<open>int(-np.log10(dedges_min))\<close>, the conversion of
  NaN) and
  \<open>decimal = int(-np.log10(dedges_min)) + 6\<close>, every sample that is at least the last edge
  and equal to it after \<open>np.around(., decimal)\<close> is on the last edge and has its bin number
  lowered by one. So bin number 0 and bin number \<open>n + 1\<close> hold the samples outside the
  range. The sums and counts per bin number are accumulated with \<open>bincount\<close>; the result
  is sum / count for the bin numbers 1 to \<open>n\<close>, and NaN (here \<open>None\<close>) where the count
  is zero.
\<close>

definition on_edge :: "real \<Rightarrow> int \<Rightarrow> real \<Rightarrow> bool" where
  "on_edge edge decimal v = (edge \<le> v \<and> np_around v decimal = np_around edge decimal)"

definition binned_statistic ::
  "real list \<Rightarrow> real list \<Rightarrow> nat \<Rightarrow> real \<times> real \<Rightarrow> error + real option list" where
  "binned_statistic x values n rng =
     (if length values \<noteq> length x then Inl AttributeError
      else
        let (smin, smax) =
              (if fst rng = snd rng then (fst rng - 1 / 2, snd rng + 1 / 2) else rng);
            edges = linspace smin smax (n + 1);
            dedges = np_diff edges
        in bind_err (digitize x edges) (\<lambda>sampBin.
           bind_err (np_min dedges) (\<lambda>dedges_min.
             if dedges_min \<le> 0 then Inl ValueError
             else
               let decimal = py_int (- log 10 dedges_min) + 6;
                   binnumbers =
                     map2 (\<lambda>b v. if on_edge (last edges) decimal v then b - 1 else b) sampBin x;
                   flatcount = bincount binnumbers (replicate (length binnumbers) (1::nat)) (n + 2);
                   flatsum = bincount binnumbers values (n + 2);
                   result = map2 (\<lambda>s c. if c \<noteq> 0 then Some (s / real c) else None)
                              flatsum flatcount
               in Inr (take n (drop 1 result)))))"

text \<open>
  \<open>np.histogram(a, bins=edges)[0]\<close> for an array of edges: ValueError unless the edges
  are non-decreasing; else the differences of the cumulative counts, where the count at
  an edge is the number of samples below it, and at the last edge the number of samples
  at most it (so every bin is half-open but the last, which is closed).
\<close>

definition histogram :: "real list \<Rightarrow> real list \<Rightarrow> error + int list" where
  "histogram a bins =
     (if \<not> sorted bins then Inl ValueError
      else
        let cum_n = map (\<lambda>e. int (length (filter (\<lambda>v. v < e) a))) (butlast bins) @
                    map (\<lambda>e. int (length (filter (\<lambda>v. v \<le> e) a))) (drop (length bins - 1) bins)
        in Inr (np_diff cum_n))"

text \<open>
  Indexing an array with an array of Python integers: a negative index counts from the
  end, an index out of range raises IndexError.
\<close>

definition py_index :: "'a list \<Rightarrow> int \<Rightarrow> error + 'a" where
  "py_index a i =
     (if 0 \<le> i \<and> i < int (length a) then Inr (a ! nat i)
      else if - int (length a) \<le> i \<and> i < 0 then Inr (a ! nat (int (length a) + i))
      else Inl IndexError)"

definition py_take :: "'a list \<Rightarrow> int list \<Rightarrow> error + 'a list" where
  "py_take a idx = map_err (py_index a) idx"

section \<open>reliability\_diagram\<close>

text \<open>
  Lines 53 to 75 of the source: the axis limits (from the number of distinct labels when
  not given), the predicted labels and confidences recomputed from the probability rows,
  the bin edges, the series \<open>bin_means\<close>, and the empirical accuracy per bin with
  \<open>bin_means\<close> substituted where the binned mean is NaN. The limits are a Python list of
  two numbers, so \<open>xlim[1] / (2 * n_bins)\<close> raises for \<open>n_bins = 0\<close>.
\<close>

record binned_series =
  rs_xlim :: "real \<times> real"
  rs_y_pred :: "nat list"
  rs_p_max :: "real list"
  rs_bins :: "real list"
  rs_bin_means :: "real list"
  rs_empirical_acc :: "real list"

definition default_xlim :: "int list \<Rightarrow> (real \<times> real) option \<Rightarrow> error + real \<times> real" where
  "default_xlim y xlim =
     (case xlim of
        None \<Rightarrow> bind_err (py_recip (length (np_unique y))) (\<lambda>lo. Inr (lo, 1))
      | Some l \<Rightarrow> Inr l)"

definition reliability_series ::
  "int list \<Rightarrow> real list list \<Rightarrow> nat \<Rightarrow> (real \<times> real) option \<Rightarrow> error + binned_series" where
  "reliability_series y p_pred n_bins xlim =
     bind_err (default_xlim y xlim) (\<lambda>xl.
     bind_err (argmax_axis1 p_pred) (\<lambda>y_pred.
     bind_err (max_axis1 p_pred) (\<lambda>p_max.
       let bins = linspace (fst xl) (snd xl) (n_bins + 1) in
       if n_bins = 0 then Inl ZeroDivisionError
       else
         let bin_means = linspace (fst xl + snd xl / (2 * real n_bins))
                                  (snd xl - snd xl / (2 * real n_bins)) n_bins in
         bind_err (np_equal (map int y_pred) y) (\<lambda>hit.
         bind_err (binned_statistic p_max (map (\<lambda>b. if b then 1 else 0) hit) n_bins xl)
           (\<lambda>stat.
             Inr \<lparr>rs_xlim = xl, rs_y_pred = y_pred, rs_p_max = p_max, rs_bins = bins,
                  rs_bin_means = bin_means,
                  rs_empirical_acc =
                    map2 (\<lambda>e m. case e of None \<Rightarrow> m | Some a \<Rightarrow> a) stat bin_means\<rparr>)))))"

text \<open>
  The rest of the numeric work of \<open>reliability_diagram\<close>: the values shaded between the
  diagonal and the accuracy curve (lines 79 to 81: 1000 points over the limits, their
  bins by \<open>digitize\<close>, and the accuracy read at those bins), and the histogram of the
  confidences over the bin edges, normalised by its total (lines 88 and 89).
\<close>

record reliability =
  series :: binned_series
  shade :: "real list"
  hist_frac :: "fval list"

definition reliability_diagram ::
  "int list \<Rightarrow> real list list \<Rightarrow> nat \<Rightarrow> (real \<times> real) option \<Rightarrow> error + reliability" where
  "reliability_diagram y p_pred n_bins xlim =
     bind_err (reliability_series y p_pred n_bins xlim) (\<lambda>s.
       let x = linspace (fst (rs_xlim s)) (snd (rs_xlim s)) 1000 in
       bind_err (digitize x (rs_bins s)) (\<lambda>d.
         let bin_ind = map (\<lambda>k. int k - 1) (butlast (tl d)) in
         bind_err (py_take (map2 (\<lambda>m e. m + (e - m)) (rs_bin_means s) (rs_empirical_acc s))
                     bin_ind) (\<lambda>sh.
         bind_err (histogram (rs_p_max s) (rs_bins s)) (\<lambda>hist.
           Inr \<lparr>series = s, shade = sh,
                hist_frac = map (\<lambda>c. np_div c (sum_list hist)) hist\<rparr>))))"

section \<open>confidence\_diagram\<close>

text \<open>
  The numeric part of \<open>confidence_diagram\<close>: the class count, the confidences, the bin
  edges over [0, 1], and for each of the two histograms the selected confidences and the
  range \<open>[1 / n_classes, 1]\<close> handed to the plotting library. The two vertical lines come
  from \<open>pycalib.scoring\<close> and are not part of the model.
\<close>

record confidence_series =
  cd_n_classes :: nat
  cd_bins :: "real list"
  cd_range :: "real \<times> real"
  cd_conf_false :: "real list"
  cd_conf_correct :: "real list"

definition confidence_diagram ::
  "int list \<Rightarrow> int list \<Rightarrow> real list list \<Rightarrow> nat option \<Rightarrow> nat \<Rightarrow> error + confidence_series" where
  "confidence_diagram y y_pred p_pred n_classes n_bins =
     (let nc = (case n_classes of None \<Rightarrow> length (np_unique y) | Some c \<Rightarrow> c) in
      bind_err (max_axis1 p_pred) (\<lambda>p_max.
        let bins = linspace 0 1 (n_bins + 1) in
        bind_err (np_equal y y_pred) (\<lambda>same.
        bind_err (mask_select p_max (map Not same)) (\<lambda>conf_false.
        bind_err (py_recip nc) (\<lambda>lo.
        bind_err (mask_select p_max same) (\<lambda>conf_correct.
          Inr \<lparr>cd_n_classes = nc, cd_bins = bins, cd_range = (lo, 1),
               cd_conf_false = conf_false, cd_conf_correct = conf_correct\<rparr>))))))"

section \<open>over\_underconfidence\_curve\<close>

text \<open>
  The confidences of the correct and of the false predictions, the bin edges
  \<open>linspace(0, 1, n_bins)\<close>, and for each group the cumulative sums of its histogram
  divided by the histogram's total.
\<close>

record confidence_curves =
  ouc_bins :: "real list"
  conf_false_cum :: "fval list"
  conf_correct_cum :: "fval list"

definition over_underconfidence_curve ::
  "int list \<Rightarrow> int list \<Rightarrow> real list list \<Rightarrow> nat \<Rightarrow> error + confidence_curves" where
  "over_underconfidence_curve y y_pred p_pred n_bins =
     bind_err (np_equal y y_pred) (\<lambda>pred_correct.
     bind_err (max_axis1 p_pred) (\<lambda>p_max.
     bind_err (mask_select p_max pred_correct) (\<lambda>conf_correct.
     bind_err (mask_select p_max (map Not pred_correct)) (\<lambda>conf_false.
       let bins = linspace 0 1 n_bins in
       bind_err (histogram conf_false bins) (\<lambda>conf_false_hist.
       bind_err (histogram conf_correct bins) (\<lambda>conf_correct_hist.
         Inr \<lparr>ouc_bins = bins,
              conf_false_cum =
                map (\<lambda>c. np_div c (sum_list conf_false_hist)) (cumsum conf_false_hist),
              conf_correct_cum =
                map (\<lambda>c. np_div c (sum_list conf_correct_hist)) (cumsum conf_correct_hist)\<rparr>))))))"

section \<open>logsumexp\_illustration\<close>

text \<open>
  Doubles, by their range. A result of magnitude \<open>2^1024 - 2^970\<close> or more is rounded to
  an infinity, one of magnitude \<open>2^-1075\<close> or less to zero, and any other result is kept
  as it is (the rounding to 53 bits is left out). On infinities and NaN the operations
  are those of IEEE 754: \<open>exp(-inf) = 0\<close>, \<open>log(0) = -inf\<close>, the logarithm of a negative
  number is NaN, \<open>0 * inf\<close> and \<open>inf - inf\<close> are NaN.
\<close>

definition float64_overflow :: real where
  "float64_overflow = 2 ^ 1024 - 2 ^ 970"

definition float64_underflow :: real where
  "float64_underflow = 1 / 2 ^ 1075"

definition fl :: "real \<Rightarrow> fval" where
  "fl v = (if float64_overflow \<le> v then PosInf
           else if v \<le> - float64_overflow then NegInf
           else if \<bar>v\<bar> \<le> float64_underflow then Fin 0
           else Fin v)"

fun fexp :: "fval \<Rightarrow> fval" where
  "fexp (Fin v) = fl (exp v)"
| "fexp PosInf = PosInf"
| "fexp NegInf = Fin 0"
| "fexp NaN = NaN"

fun flog :: "fval \<Rightarrow> fval" where
  "flog (Fin v) = (if v = 0 then NegInf else if v < 0 then NaN else Fin (ln v))"
| "flog PosInf = PosInf"
| "flog NegInf = NaN"
| "flog NaN = NaN"

fun fadd :: "fval \<Rightarrow> fval \<Rightarrow> fval" where
  "fadd (Fin a) (Fin b) = fl (a + b)"
| "fadd NaN _ = NaN"
| "fadd _ NaN = NaN"
| "fadd PosInf NegInf = NaN"
| "fadd NegInf PosInf = NaN"
| "fadd PosInf _ = PosInf"
| "fadd _ PosInf = PosInf"
| "fadd NegInf _ = NegInf"
| "fadd _ NegInf = NegInf"

fun fmul :: "fval \<Rightarrow> fval \<Rightarrow> fval" where
  "fmul (Fin a) (Fin b) = fl (a * b)"
| "fmul NaN _ = NaN"
| "fmul _ NaN = NaN"
| "fmul (Fin a) PosInf = (if 0 < a then PosInf else if a < 0 then NegInf else NaN)"
| "fmul (Fin a) NegInf = (if 0 < a then NegInf else if a < 0 then PosInf else NaN)"
| "fmul PosInf (Fin b) = (if 0 < b then PosInf else if b < 0 then NegInf else NaN)"
| "fmul NegInf (Fin b) = (if 0 < b then NegInf else if b < 0 then PosInf else NaN)"
| "fmul PosInf PosInf = PosInf"
| "fmul PosInf NegInf = NegInf"
| "fmul NegInf PosInf = NegInf"
| "fmul NegInf NegInf = PosInf"

text \<open>\<open>np.sum\<close> of one row, 0 for an empty row.\<close>

definition fsum :: "fval list \<Rightarrow> fval" where
  "fsum xs = foldl fadd (Fin 0) xs"

text \<open>
  The Python division \<open>1 / N\<close>: ZeroDivisionError for \<open>N = 0\<close>, 0 for an infinite \<open>N\<close>.
\<close>

fun py_inverse :: "fval \<Rightarrow> error + fval" where
  "py_inverse (Fin v) = (if v = 0 then Inl ZeroDivisionError else Inr (fl (1 / v)))"
| "py_inverse PosInf = Inr (Fin 0)"
| "py_inverse NegInf = Inr (Fin 0)"
| "py_inverse NaN = Inr NaN"

text \<open>
  The local function \<open>logsumexp(x, N) = 1 / N * np.log(np.sum(np.exp(N * x), axis=1))\<close>,
  one value per row of \<open>x\<close>, and the rows \<open>[1 - t, t]\<close> the illustration evaluates it on.
  \<open>N\<close> is a Python number (5, 50 and 500 in the illustration), used as a double; the
  exponentials are taken as they are, with no shift by the maximum of the row.
\<close>

definition logsumexp :: "real list list \<Rightarrow> fval \<Rightarrow> error + fval list" where
  "logsumexp x N =
     bind_err (py_inverse N) (\<lambda>inv.
       Inr (map (\<lambda>row. fmul inv (flog (fsum (map (\<lambda>v. fexp (fmul N (Fin v))) row)))) x))"

definition column_stack2 :: "real list \<Rightarrow> real list list" where
  "column_stack2 t1 = map (\<lambda>t. [1 - t, t]) t1"

section \<open>confidence\_trajectories\<close>

text \<open>
  The local helper \<open>index_of_max_element_below_thresh\<close>: index 0 when the minimum is above
  the threshold, else the argmax of the selection \<open>elements[elements <= threshold]\<close>.
\<close>

definition index_of_max_element_below_thresh :: "real list \<Rightarrow> real \<Rightarrow> error + nat" where
  "index_of_max_element_below_thresh elements threshold =
     (case np_min elements of
        Inl e \<Rightarrow> Inl e
      | Inr m \<Rightarrow>
          if m > threshold then Inr 0
          else np_argmax (filter (\<lambda>v. v \<le> threshold) elements))"

text \<open>\<open>cummean = lambda x: x.cumsum() / np.arange(1, len(x) + 1)\<close>.\<close>

definition cummean :: "real list \<Rightarrow> real list" where
  "cummean x = map2 (\<lambda>s k. s / real k) (cumsum x) [1..<Suc (length x)]"

text \<open>Integer-array indexing \<open>a[idx]\<close>, IndexError when an index is out of range.\<close>

definition take_indices :: "'a list \<Rightarrow> nat list \<Rightarrow> error + 'a list" where
  "take_indices a idx =
     map_err (\<lambda>i. if i < length a then Inr (a ! i) else Inl IndexError) idx"

text \<open>
  Lines 233 to 242 of the source: the correctness mask, the per-sample maximum
  probability, and the sorted confidences of the correct and of the false predictions.
\<close>

definition sorted_confidences ::
  "int list \<Rightarrow> int list \<Rightarrow> real list list \<Rightarrow> error + (real list \<times> real list)" where
  "sorted_confidences y y_pred p_pred =
     bind_err (np_equal y y_pred) (\<lambda>pred_correct.
     bind_err (max_axis1 p_pred) (\<lambda>p_max.
     bind_err (mask_select p_max pred_correct) (\<lambda>sel_correct.
     bind_err (mask_select p_max (map Not pred_correct)) (\<lambda>sel_false.
       Inr (sort sel_correct, sort sel_false)))))"

text \<open>
  The numeric part of \<open>confidence_trajectories\<close>: the class count (counted from \<open>y\<close> when
  not given), the sorted confidences, the threshold grid from \<open>1 / n_classes\<close> to 1, the
  helper's index for every threshold, and the cumulative means read at those indices. The
  accuracy, the inverse odds and the calibration corridor only feed the drawing (the
  corridor through \<open>pycalib.scoring\<close>) and are not part of the model.
\<close>

record trajectories =
  traj_n_classes :: nat
  traj_thresholds :: "real list"
  avg_conf_correct :: "real list"
  avg_conf_false :: "real list"

definition confidence_trajectories ::
  "int list \<Rightarrow> int list \<Rightarrow> real list list \<Rightarrow> nat option \<Rightarrow> nat \<Rightarrow> error + trajectories" where
  "confidence_trajectories y y_pred p_pred n_classes n_thresh_steps =
     (let nc = (case n_classes of None \<Rightarrow> length (np_unique y) | Some c \<Rightarrow> c) in
      bind_err (sorted_confidences y y_pred p_pred) (\<lambda>(conf_correct, conf_false).
      bind_err (py_recip nc) (\<lambda>floor_conf.
        let conf_thresholds = linspace floor_conf 1 n_thresh_steps in
        bind_err (map_err (index_of_max_element_below_thresh conf_correct) conf_thresholds)
          (\<lambda>max_els_conf_correct.
        bind_err (map_err (index_of_max_element_below_thresh conf_false) conf_thresholds)
          (\<lambda>max_els_conf_false.
        bind_err (take_indices (cummean conf_correct) max_els_conf_correct) (\<lambda>acc.
        bind_err (take_indices (cummean conf_false) max_els_conf_false) (\<lambda>acf.
          Inr \<lparr>traj_n_classes = nc, traj_thresholds = conf_thresholds,
               avg_conf_correct = acc, avg_conf_false = acf\<rparr>)))))))"

section \<open>Notions used in the statements\<close>

text \<open>The arithmetic mean of a non-empty list.\<close>

definition mean :: "real list \<Rightarrow> real" where
  "mean xs = sum_list xs / real (length xs)"

text \<open>
  The equal-width partition of \<open>[lo, hi]\<close> into \<open>n\<close> bins: the edges, membership of a
  value in the \<open>i\<close>-th bin (half-open, the last bin closed), and the midpoint of the
  \<open>i\<close>-th bin.
\<close>

definition bin_edge :: "real \<Rightarrow> real \<Rightarrow> nat \<Rightarrow> nat \<Rightarrow> real" where
  "bin_edge lo hi n j = lo + real j * ((hi - lo) / real n)"

definition in_bin :: "real \<Rightarrow> real \<Rightarrow> nat \<Rightarrow> nat \<Rightarrow> real \<Rightarrow> bool" where
  "in_bin lo hi n i v =
     (bin_edge lo hi n i \<le> v \<and> (if Suc i = n then v \<le> hi else v < bin_edge lo hi n (Suc i)))"

definition bin_midpoint :: "real \<Rightarrow> real \<Rightarrow> nat \<Rightarrow> nat \<Rightarrow> real" where
  "bin_midpoint lo hi n i = lo + (real i + 1 / 2) * (hi - lo) / real n"

text \<open>
  The samples of a bin, as pairs of a confidence and the value attached to it, and the
  indicator (1 or 0) of predicted label = true label.
\<close>

definition samples_in_bin ::
  "real \<Rightarrow> real \<Rightarrow> nat \<Rightarrow> nat \<Rightarrow> real list \<Rightarrow> real list \<Rightarrow> (real \<times> real) list" where
  "samples_in_bin lo hi n i x values = filter (\<lambda>s. in_bin lo hi n i (fst s)) (zip x values)"

definition hit_indicator :: "nat list \<Rightarrow> int list \<Rightarrow> real list" where
  "hit_indicator y_pred y = map2 (\<lambda>p t. if int p = t then 1 else 0) y_pred y"

text \<open>
  What scipy does at the right end of the range. \<open>edge_decimals\<close> is the number of
  decimals it rounds to, from the bin width. A value is in the \<open>i\<close>-th bin as scipy
  fills it when it is in the bin, or when the bin is the last one and the value is above
  \<open>hi\<close> but equal to \<open>hi\<close> after rounding to that number of decimals.
\<close>

definition edge_decimals :: "real \<Rightarrow> real \<Rightarrow> nat \<Rightarrow> int" where
  "edge_decimals lo hi n = py_int (- log 10 ((hi - lo) / real n)) + 6"

definition rounds_to_upper :: "real \<Rightarrow> real \<Rightarrow> nat \<Rightarrow> real \<Rightarrow> bool" where
  "rounds_to_upper lo hi n v =
     (hi < v \<and> np_around v (edge_decimals lo hi n) = np_around hi (edge_decimals lo hi n))"

definition in_scipy_bin :: "real \<Rightarrow> real \<Rightarrow> nat \<Rightarrow> nat \<Rightarrow> real \<Rightarrow> bool" where
  "in_scipy_bin lo hi n i v = (in_bin lo hi n i v \<or> (Suc i = n \<and> rounds_to_upper lo hi n v))"

definition samples_in_scipy_bin ::
  "real \<Rightarrow> real \<Rightarrow> nat \<Rightarrow> nat \<Rightarrow> real list \<Rightarrow> real list \<Rightarrow> (real \<times> real) list" where
  "samples_in_scipy_bin lo hi n i x values =
     filter (\<lambda>s. in_scipy_bin lo hi n i (fst s)) (zip x values)"

text \<open>
  The bin number scipy gives a value: the count of edges at most the value, lowered by
  one when the value is on the last edge.
\<close>

definition bin_number :: "real list \<Rightarrow> int \<Rightarrow> real \<Rightarrow> nat" where
  "bin_number edges decimal v =
     (if on_edge (last edges) decimal v then length (filter (\<lambda>e. e \<le> v) edges) - 1
      else length (filter (\<lambda>e. e \<le> v) edges))"

text \<open>
  For the trajectories: the confidences that are at most a threshold, the largest of
  them, and the confidences strictly below that largest one followed by one copy of it.
\<close>

definition below_thresh :: "real list \<Rightarrow> real \<Rightarrow> real list" where
  "below_thresh conf t = filter (\<lambda>v. v \<le> t) conf"

definition largest_below :: "real list \<Rightarrow> real \<Rightarrow> real" where
  "largest_below conf t = Max (set (below_thresh conf t))"

definition up_to_first_largest :: "real list \<Rightarrow> real \<Rightarrow> real list" where
  "up_to_first_largest conf t =
     filter (\<lambda>v. v < largest_below conf t) conf @ [largest_below conf t]"

text \<open>
  For the cumulative curves: the order of the values a numpy division gives (NaN
  compares false with everything), a non-decreasing sequence, and a non-empty sequence
  whose final element is 1.
\<close>

fun fval_le :: "fval \<Rightarrow> fval \<Rightarrow> bool" where
  "fval_le (Fin a) (Fin b) = (a \<le> b)"
| "fval_le (Fin a) PosInf = True"
| "fval_le PosInf PosInf = True"
| "fval_le NegInf (Fin b) = True"
| "fval_le NegInf PosInf = True"
| "fval_le NegInf NegInf = True"
| "fval_le _ _ = False"

definition nondecreasing :: "fval list \<Rightarrow> bool" where
  "nondecreasing xs = sorted_wrt fval_le xs"

definition final_is_one :: "fval list \<Rightarrow> bool" where
  "final_is_one xs = (xs \<noteq> [] \<and> last xs = Fin 1)"

text \<open>
  For the illustration: the entry of \<open>logsumexp(np.column_stack([1 - t1, t1]), N)\<close> for
  the row \<open>[1 - t, t]\<close>, as a function of the sharpness \<open>N\<close>; and convergence of such a
  function to a number as \<open>N\<close> grows: from some \<open>N\<close> on the call returns a finite value
  as near to the number as asked.
\<close>

definition illustration_value :: "real \<Rightarrow> real \<Rightarrow> error + fval list" where
  "illustration_value t N = logsumexp (column_stack2 [t]) (Fin N)"

definition approaches :: "(real \<Rightarrow> error + fval list) \<Rightarrow> real \<Rightarrow> bool" where
  "approaches f L = (\<forall>e > 0. \<exists>N0. \<forall>N \<ge> N0. \<exists>v. f N = Inr [Fin v] \<and> \<bar>v - L\<bar> < e)"

section \<open>Properties of the library operations\<close>

lemma np_min_Min: "xs \<noteq> [] \<Longrightarrow> np_min xs = Inr (Min (set xs))"
proof (cases xs)
  case (Cons a r)
  show ?thesis using Min.set_eq_fold[of a r] by (simp add: Cons np_min_def)
qed simp

lemma np_max_Max: "xs \<noteq> [] \<Longrightarrow> np_max xs = Inr (Max (set xs))"
proof (cases xs)
  case (Cons a r)
  show ?thesis using Max.set_eq_fold[of a r] by (simp add: Cons np_max_def)
qed simp

lemma argmax_scan_spec:
  assumes "bi < length ys" "ys ! bi = bv" "\<forall>v \<in> set ys. v \<le> bv" "\<forall>j < bi. ys ! j < bv"
  shows "argmax_scan bi bv (length ys) xs < length (ys @ xs) \<and>
         (\<forall>v \<in> set (ys @ xs). v \<le> (ys @ xs) ! argmax_scan bi bv (length ys) xs) \<and>
         (\<forall>j < argmax_scan bi bv (length ys) xs. (ys @ xs) ! j < (ys @ xs) ! argmax_scan bi bv (length ys) xs)"
  using assms
proof (induction xs arbitrary: ys bi bv)
  case Nil
  then show ?case by simp
next
  case (Cons x xs)
  show ?case
  proof (cases "bv < x")
    case True
    have a: "length ys < length (ys @ [x])" by simp
    have b: "(ys @ [x]) ! length ys = x" by simp
    have c: "\<forall>v \<in> set (ys @ [x]). v \<le> x" using Cons.prems(3) True by auto
    have d: "\<forall>j < length ys. (ys @ [x]) ! j < x"
      using Cons.prems(3) True by (auto simp: nth_append dest!: nth_mem)
    from Cons.IH[OF a b c d] True show ?thesis by simp
  next
    case False
    have a: "bi < length (ys @ [x])" using Cons.prems(1) by simp
    have b: "(ys @ [x]) ! bi = bv" using Cons.prems(1,2) by (simp add: nth_append)
    have c: "\<forall>v \<in> set (ys @ [x]). v \<le> bv" using Cons.prems(3) False by auto
    have d: "\<forall>j < bi. (ys @ [x]) ! j < bv"
      using Cons.prems(1,4) by (auto simp: nth_append)
    from Cons.IH[OF a b c d] False show ?thesis by simp
  qed
qed

lemma np_argmax_spec:
  assumes "xs \<noteq> []"
  shows "\<exists>i. np_argmax xs = Inr i \<and> i < length xs \<and> (\<forall>v \<in> set xs. v \<le> xs ! i) \<and> (\<forall>j < i. xs ! j < xs ! i)"
proof -
  obtain x r where xs: "xs = x # r" using assms by (cases xs) auto
  have "argmax_scan 0 x (length [x]) r < length ([x] @ r) \<and>
         (\<forall>v \<in> set ([x] @ r). v \<le> ([x] @ r) ! argmax_scan 0 x (length [x]) r) \<and>
         (\<forall>j < argmax_scan 0 x (length [x]) r. ([x] @ r) ! j < ([x] @ r) ! argmax_scan 0 x (length [x]) r)"
    by (rule argmax_scan_spec) simp_all
  then show ?thesis by (simp add: xs np_argmax_def)
qed

lemma cumsum_from_length: "length (cumsum_from acc xs) = length xs"
  by (induction xs arbitrary: acc) simp_all

lemma cumsum_from_nth:
  "k < length xs \<Longrightarrow> cumsum_from acc xs ! k = acc + sum_list (take (Suc k) xs)"
proof (induction xs arbitrary: acc k)
  case Nil then show ?case by simp
next
  case (Cons x xs)
  then show ?case by (cases k) (simp_all add: add.assoc)
qed

lemma cummean_length: "length (cummean x) = length x"
  by (simp add: cummean_def cumsum_def cumsum_from_length del: upt_Suc)

lemma cummean_nth:
  "k < length x \<Longrightarrow> cummean x ! k = sum_list (take (Suc k) x) / real (Suc k)"
  by (simp add: cummean_def cumsum_def cumsum_from_length cumsum_from_nth del: upt_Suc)


lemma map_err_Inr_iff:
  "map_err f xs = Inr vs \<longleftrightarrow> length vs = length xs \<and> (\<forall>k < length xs. f (xs ! k) = Inr (vs ! k))"
proof (induction xs arbitrary: vs)
  case Nil
  then show ?case by auto
next
  case (Cons x xs)
  show ?case
  proof (cases vs)
    case Nil
    then show ?thesis by (auto split: sum.splits)
  next
    case (Cons v vs')
    show ?thesis
      unfolding Cons using Cons.IH[of vs']
      by (auto split: sum.splits simp: nth_Cons less_Suc_eq_0_disj split: nat.splits)
  qed
qed

lemma map_err_total:
  "(\<And>x. x \<in> set xs \<Longrightarrow> \<exists>v. f x = Inr v) \<Longrightarrow> \<exists>vs. map_err f xs = Inr vs"
proof (induction xs)
  case Nil then show ?case by simp
next
  case (Cons x xs)
  then obtain v where "f x = Inr v" by fastforce
  moreover from Cons obtain vs where "map_err f xs = Inr vs" by fastforce
  ultimately show ?case by simp
qed

lemma sorted_filter_take:
  assumes "sorted (xs::real list)"
  shows "filter (\<lambda>v. v \<le> t) xs = take (length (filter (\<lambda>v. v \<le> t) xs)) xs"
  using assms
proof (induction xs)
  case Nil then show ?case by simp
next
  case (Cons x xs)
  show ?case
  proof (cases "x \<le> t")
    case True
    with Cons show ?thesis by simp
  next
    case False
    with Cons.prems have "\<forall>v \<in> set xs. \<not> v \<le> t" by auto
    then have "filter (\<lambda>v. v \<le> t) xs = []" by (simp add: filter_empty_conv)
    with False show ?thesis by simp
  qed
qed

lemma sorted_filter_less_take:
  assumes "sorted (xs::real list)"
  shows "filter (\<lambda>v. v < t) xs = take (length (filter (\<lambda>v. v < t) xs)) xs"
  using assms
proof (induction xs)
  case Nil then show ?case by simp
next
  case (Cons x xs)
  show ?case
  proof (cases "x < t")
    case True
    with Cons show ?thesis by simp
  next
    case False
    with Cons.prems have "\<forall>v \<in> set xs. \<not> v < t" by auto
    then have "filter (\<lambda>v. v < t) xs = []" by (simp add: filter_empty_conv)
    with False show ?thesis by simp
  qed
qed

lemma sorted_first_index:
  assumes "sorted (xs::real list)" "i < length xs" "\<forall>j < i. xs ! j < xs ! i"
  shows "length (filter (\<lambda>v. v < xs ! i) xs) = i"
proof -
  have xs: "xs = take i xs @ drop i xs" by simp
  have a: "filter (\<lambda>v. v < xs ! i) (take i xs) = take i xs"
    using assms(2,3) by (auto simp: filter_id_conv in_set_conv_nth)
  have "\<forall>v \<in> set (drop i xs). xs ! i \<le> v"
    using assms(1,2) by (auto simp: in_set_conv_nth sorted_iff_nth_mono)
  then have b: "filter (\<lambda>v. v < xs ! i) (drop i xs) = []"
    by (auto simp: filter_empty_conv)
  have "filter (\<lambda>v. v < xs ! i) xs = filter (\<lambda>v. v < xs ! i) (take i xs) @ filter (\<lambda>v. v < xs ! i) (drop i xs)"
    by (metis xs filter_append)
  then show ?thesis using a b assms(2) by simp
qed

lemma linspace_length: "length (linspace a b n) = n"
  by (simp add: linspace_def)

lemma linspace_nth:
  assumes "2 \<le> n" "i < n"
  shows "linspace a b n ! i = a + real i * ((b - a) / real (n - 1))"
proof (cases "i < n - 1")
  case True
  then show ?thesis using assms by (simp add: linspace_def nth_append)
next
  case False
  with assms have i: "i = n - 1" by simp
  have "linspace a b n ! (n - 1) = b" using assms(1) by (simp add: linspace_def nth_append)
  moreover have "a + real (n - 1) * ((b - a) / real (n - 1)) = b" using assms(1) by simp
  ultimately show ?thesis using i by simp
qed

lemma linspace_last: "2 \<le> n \<Longrightarrow> last (linspace a b n) = b"
  by (simp add: linspace_def)

lemma linspace_strict_mono:
  assumes "a < b"
  shows "sorted_wrt (<) (linspace a b n)"
proof (cases "2 \<le> n")
  case True
  have "\<And>i j. i < j \<Longrightarrow> j < n \<Longrightarrow> linspace a b n ! i < linspace a b n ! j"
  proof -
    fix i j assume ij: "i < j" "j < n"
    have pos: "0 < (b - a) / real (n - 1)" using assms True by simp
    have "real i * ((b - a) / real (n - 1)) < real j * ((b - a) / real (n - 1))"
      using ij(1) pos by (intro mult_strict_right_mono) simp_all
    then show "linspace a b n ! i < linspace a b n ! j"
      using linspace_nth[OF True, of i a b] linspace_nth[OF True, of j a b] ij by simp
  qed
  then show ?thesis by (simp add: sorted_wrt_iff_nth_less linspace_length)
next
  case False
  then have "n = 0 \<or> n = 1" by auto
  then show ?thesis by (auto simp: linspace_def)
qed

lemma linspace_sorted:
  assumes "a \<le> b"
  shows "sorted (linspace a b n)"
proof (cases "2 \<le> n")
  case True
  have "\<And>i j. i \<le> j \<Longrightarrow> j < n \<Longrightarrow> linspace a b n ! i \<le> linspace a b n ! j"
  proof -
    fix i j assume ij: "i \<le> j" "j < n"
    have pos: "0 \<le> (b - a) / real (n - 1)" using assms True by simp
    have "real i * ((b - a) / real (n - 1)) \<le> real j * ((b - a) / real (n - 1))"
      using ij(1) pos by (intro mult_right_mono) simp_all
    then show "linspace a b n ! i \<le> linspace a b n ! j"
      using linspace_nth[OF True, of i a b] linspace_nth[OF True, of j a b] ij by simp
  qed
  then show ?thesis by (simp add: sorted_iff_nth_mono linspace_length)
next
  case False
  then have "n = 0 \<or> n = 1" by auto
  then show ?thesis by (auto simp: linspace_def)
qed

lemma linspace_rev_sorted:
  assumes "b \<le> a"
  shows "sorted (rev (linspace a b n))"
proof (cases "2 \<le> n")
  case True
  have "\<And>i j. i \<le> j \<Longrightarrow> j < n \<Longrightarrow> linspace a b n ! j \<le> linspace a b n ! i"
  proof -
    fix i j assume ij: "i \<le> j" "j < n"
    have neg: "(b - a) / real (n - 1) \<le> 0" using assms True by (simp add: divide_nonpos_pos)
    have "real j * ((b - a) / real (n - 1)) \<le> real i * ((b - a) / real (n - 1))"
      using ij(1) neg by (intro mult_right_mono_neg) simp_all
    then show "linspace a b n ! j \<le> linspace a b n ! i"
      using linspace_nth[OF True, of i a b] linspace_nth[OF True, of j a b] ij by simp
  qed
  then show ?thesis
    by (simp add: sorted_iff_nth_mono linspace_length rev_nth)
next
  case False
  then have "n = 0 \<or> n = 1" by auto
  then show ?thesis by (auto simp: linspace_def)
qed

lemma bincount_fold_length:
  "length (fold (\<lambda>(b, w) acc. acc[b := acc ! b + w]) zs acc) = length acc"
  by (induction zs arbitrary: acc) (auto split: prod.splits)

lemma bincount_fold_nth:
  fixes acc :: "'a::monoid_add list"
  assumes "b < length acc"
  shows "fold (\<lambda>(b, w) acc. acc[b := acc ! b + w]) zs acc ! b =
         acc ! b + sum_list (map snd (filter (\<lambda>p. fst p = b) zs))"
  using assms
proof (induction zs arbitrary: acc)
  case Nil
  then show ?case by simp
next
  case (Cons z zs)
  obtain b' w where z: "z = (b', w)" by (cases z)
  have len: "b < length (acc[b' := acc ! b' + w])" using Cons.prems by simp
  show ?case
  proof (cases "b' = b")
    case True
    then show ?thesis using Cons.IH[OF len] Cons.prems z by (simp add: add.assoc)
  next
    case False
    then show ?thesis using Cons.IH[OF len] Cons.prems z by simp
  qed
qed

lemma bincount_length: "length (bincount x w m) = m"
  by (simp add: bincount_def bincount_fold_length)

lemma bincount_nth:
  fixes w :: "'a::monoid_add list"
  assumes "b < m"
  shows "bincount x w m ! b = sum_list (map snd (filter (\<lambda>p. fst p = b) (zip x w)))"
  unfolding bincount_def using bincount_fold_nth[of b "replicate m 0" "zip x w"] assms by simp

lemma count_edges_char:
  assumes s: "sorted_wrt (<) (es::real list)" and k: "k = length (filter (\<lambda>e. e \<le> v) es)"
  shows "k \<le> length es \<and> (\<forall>j < k. es ! j \<le> v) \<and> (k < length es \<longrightarrow> v < es ! k)"
proof -
  have srt: "sorted es" using s by (simp add: strict_sorted_iff)
  have dist: "distinct es" using s by (simp add: strict_sorted_iff)
  have tk: "filter (\<lambda>e. e \<le> v) es = take k es" unfolding k by (rule sorted_filter_take[OF srt])
  have kl: "k \<le> length es" unfolding k by (rule length_filter_le)
  have a: "\<forall>j < k. es ! j \<le> v"
  proof (intro allI impI)
    fix j assume j: "j < k"
    then have "es ! j \<in> set (take k es)" using kl by (metis in_set_conv_nth length_take min.absorb2 nth_take)
    then have "es ! j \<in> set (filter (\<lambda>e. e \<le> v) es)" using tk by simp
    then show "es ! j \<le> v" by simp
  qed
  have b: "k < length es \<longrightarrow> v < es ! k"
  proof (intro impI, rule ccontr)
    assume kk: "k < length es" and "\<not> v < es ! k"
    then have "es ! k \<in> set (filter (\<lambda>e. e \<le> v) es)" by auto
    then have "es ! k \<in> set (take k es)" using tk by simp
    then obtain j where j: "j < k" "es ! j = es ! k"
      by (auto simp: in_set_conv_nth)
    then show False using dist kk by (simp add: nth_eq_iff_index_eq)
  qed
  from kl a b show ?thesis by blast
qed

lemma edges_nth:
  assumes "0 < n" "j \<le> n"
  shows "linspace lo hi (n + 1) ! j = bin_edge lo hi n j"
  using linspace_nth[of "n + 1" j lo hi] assms by (simp add: bin_edge_def)

lemma bin_edge_mono:
  assumes "lo < hi" "0 < n" "i \<le> j"
  shows "bin_edge lo hi n i \<le> bin_edge lo hi n j"
proof -
  have "0 \<le> (hi - lo) / real n" using assms by simp
  then have "real i * ((hi - lo) / real n) \<le> real j * ((hi - lo) / real n)"
    using assms(3) by (intro mult_right_mono) simp_all
  then show ?thesis by (simp add: bin_edge_def)
qed

lemma bin_edge_first: "bin_edge lo hi n 0 = lo"
  by (simp add: bin_edge_def)

lemma bin_edge_last: "0 < n \<Longrightarrow> bin_edge lo hi n n = hi"
  by (simp add: bin_edge_def)

lemma in_bin_range:
  assumes "lo < hi" "0 < n" "i < n" "in_bin lo hi n i v"
  shows "lo \<le> v \<and> v \<le> hi"
proof -
  have a: "lo \<le> bin_edge lo hi n i"
    using bin_edge_mono[OF assms(1,2), of 0 i] by (simp add: bin_edge_first)
  have b: "bin_edge lo hi n (Suc i) \<le> hi"
    using bin_edge_mono[OF assms(1,2), of "Suc i" n] assms(3) bin_edge_last[OF assms(2)] by simp
  from assms(4) a b show ?thesis by (auto simp: in_bin_def split: if_splits)
qed

lemma exact_bin_number_iff:
  assumes lh: "lo < hi" and n: "0 < n" and i: "i < n"
  shows "(if v = hi then length (filter (\<lambda>e. e \<le> v) (linspace lo hi (n + 1))) - 1
          else length (filter (\<lambda>e. e \<le> v) (linspace lo hi (n + 1)))) = Suc i \<longleftrightarrow>
         in_bin lo hi n i v"
proof -
  let ?es = "linspace lo hi (n + 1)"
  let ?k = "length (filter (\<lambda>e. e \<le> v) ?es)"
  let ?bn = "if v = hi then ?k - 1 else ?k"
  have s: "sorted_wrt (<) ?es" by (rule linspace_strict_mono[OF lh])
  have len: "length ?es = n + 1" by (simp add: linspace_length)
  have lst: "last ?es = hi" using n by (simp add: linspace_last)
  have ch: "?k \<le> length ?es \<and> (\<forall>j < ?k. ?es ! j \<le> v) \<and> (?k < length ?es \<longrightarrow> v < ?es ! ?k)"
    by (rule count_edges_char[OF s refl])
  have kl: "?k \<le> n + 1" using ch unfolding len by blast
  have lower: "\<forall>j < ?k. ?es ! j \<le> v" using ch by blast
  have upper: "?k < n + 1 \<longrightarrow> v < ?es ! ?k" using ch unfolding len by blast
  have nth: "\<And>j. j \<le> n \<Longrightarrow> ?es ! j = bin_edge lo hi n j" by (rule edges_nth[OF n])
  show ?thesis
  proof (cases "v = hi")
    case True
    have "\<not> ?k < n + 1"
    proof
      assume a: "?k < n + 1"
      with upper have "v < ?es ! ?k" by simp
      moreover have "?es ! ?k \<le> hi"
        using nth[of ?k] a bin_edge_mono[OF lh n, of ?k n] bin_edge_last[OF n] by simp
      ultimately show False using True by simp
    qed
    with kl have k: "?k = n + 1" by simp
    have bn: "?bn = n" using True k by simp
    show ?thesis
    proof (cases "Suc i = n")
      case True
      have "bin_edge lo hi n i \<le> hi"
        using bin_edge_mono[OF lh n, of i n] i bin_edge_last[OF n] by simp
      then show ?thesis using bn True \<open>v = hi\<close> by (simp add: in_bin_def)
    next
      case False
      have "bin_edge lo hi n (Suc i) \<le> hi"
        using bin_edge_mono[OF lh n, of "Suc i" n] i bin_edge_last[OF n] by simp
      then show ?thesis using bn False \<open>v = hi\<close> by (auto simp: in_bin_def)
    qed
  next
    case False
    then have bn: "?bn = ?k" by simp
    show ?thesis
    proof
      assume "?bn = Suc i"
      then have k: "?k = Suc i" using bn by simp
      have "?es ! i \<le> v" using lower k by simp
      then have a: "bin_edge lo hi n i \<le> v" using nth[of i] i by simp
      have "v < ?es ! Suc i" using upper k i by simp
      then have b: "v < bin_edge lo hi n (Suc i)" using nth[of "Suc i"] i by simp
      have "bin_edge lo hi n (Suc i) \<le> hi"
        using bin_edge_mono[OF lh n, of "Suc i" n] i bin_edge_last[OF n] by simp
      with a b show "in_bin lo hi n i v" by (simp add: in_bin_def)
    next
      assume ib: "in_bin lo hi n i v"
      then have a: "bin_edge lo hi n i \<le> v" by (simp add: in_bin_def)
      have b: "v < bin_edge lo hi n (Suc i)"
      proof (cases "Suc i = n")
        case True
        then show ?thesis using ib False bin_edge_last[OF n] by (simp add: in_bin_def)
      next
        case False
        then show ?thesis using ib by (simp add: in_bin_def)
      qed
      have "\<not> ?k \<le> i"
      proof
        assume c: "?k \<le> i"
        then have "?k < n + 1" using i by simp
        with upper have "v < ?es ! ?k" by simp
        then have "v < bin_edge lo hi n ?k" using nth[of ?k] c i by simp
        also have "\<dots> \<le> bin_edge lo hi n i" by (rule bin_edge_mono[OF lh n c])
        finally show False using a by simp
      qed
      moreover have "\<not> Suc (Suc i) \<le> ?k"
      proof
        assume c: "Suc (Suc i) \<le> ?k"
        then have "?es ! Suc i \<le> v" using lower by simp
        then have "bin_edge lo hi n (Suc i) \<le> v" using nth[of "Suc i"] i by simp
        then show False using b by simp
      qed
      ultimately have "?k = Suc i" by simp
      then show "?bn = Suc i" using bn by simp
    qed
  qed
qed

lemma edge_count_upper:
  assumes lh: "lo < hi" and n: "0 < n" and v: "hi \<le> v"
  shows "length (filter (\<lambda>e. e \<le> v) (linspace lo hi (n + 1))) = n + 1"
proof -
  let ?es = "linspace lo hi (n + 1)"
  define k where "k = length (filter (\<lambda>e. e \<le> v) ?es)"
  have s: "sorted_wrt (<) ?es" by (rule linspace_strict_mono[OF lh])
  have len: "length ?es = n + 1" by (simp add: linspace_length)
  have ch: "k \<le> length ?es \<and> (\<forall>j < k. ?es ! j \<le> v) \<and> (k < length ?es \<longrightarrow> v < ?es ! k)"
    by (rule count_edges_char[OF s k_def])
  have "\<not> k < n + 1"
  proof
    assume a: "k < n + 1"
    then have "v < ?es ! k" using ch unfolding len by blast
    moreover have "?es ! k \<le> hi"
      using edges_nth[OF n, of k lo hi] a bin_edge_mono[OF lh n, of k n] bin_edge_last[OF n]
      by simp
    ultimately show False using v by simp
  qed
  moreover have "k \<le> n + 1" using ch unfolding len by blast
  ultimately have "k = n + 1" by simp
  then show ?thesis unfolding k_def .
qed

lemma on_edge_iff:
  "on_edge hi (edge_decimals lo hi n) v \<longleftrightarrow> v = hi \<or> rounds_to_upper lo hi n v"
  by (auto simp: on_edge_def rounds_to_upper_def)

lemma bin_number_iff:
  assumes lh: "lo < hi" and n: "0 < n" and i: "i < n"
  shows "bin_number (linspace lo hi (n + 1)) (edge_decimals lo hi n) v = Suc i \<longleftrightarrow>
         in_scipy_bin lo hi n i v"
proof -
  let ?es = "linspace lo hi (n + 1)"
  let ?k = "length (filter (\<lambda>e. e \<le> v) ?es)"
  have lst: "last ?es = hi" using n by (simp add: linspace_last)
  have ex: "(if v = hi then ?k - 1 else ?k) = Suc i \<longleftrightarrow> in_bin lo hi n i v"
    by (rule exact_bin_number_iff[OF lh n i])
  have oe: "on_edge (last ?es) (edge_decimals lo hi n) v \<longleftrightarrow> v = hi \<or> rounds_to_upper lo hi n v"
    unfolding lst by (rule on_edge_iff)
  show ?thesis
  proof (cases "rounds_to_upper lo hi n v")
    case False
    then have "bin_number ?es (edge_decimals lo hi n) v = (if v = hi then ?k - 1 else ?k)"
      unfolding bin_number_def oe by simp
    then show ?thesis using ex False by (simp add: in_scipy_bin_def)
  next
    case True
    then have above: "hi < v" by (simp add: rounds_to_upper_def)
    then have k: "?k = n + 1" using edge_count_upper[OF lh n, of v] by simp
    have bn: "bin_number ?es (edge_decimals lo hi n) v = n"
      unfolding bin_number_def oe using True k by simp
    have "\<not> in_bin lo hi n i v" using in_bin_range[OF lh n i, of v] above by auto
    then show ?thesis using bn True by (auto simp: in_scipy_bin_def)
  qed
qed

lemma in_scipy_bin_below:
  "v \<le> hi \<Longrightarrow> in_scipy_bin lo hi n i v = in_bin lo hi n i v"
  by (auto simp: in_scipy_bin_def rounds_to_upper_def)

lemma samples_in_scipy_bin_below:
  assumes "\<forall>v \<in> set x. v \<le> hi"
  shows "samples_in_scipy_bin lo hi n i x vals = samples_in_bin lo hi n i x vals"
  unfolding samples_in_scipy_bin_def samples_in_bin_def
  using assms by (intro filter_cong refl) (auto simp: in_scipy_bin_below dest: set_zip_leftD)

lemma np_diff_length: "length (np_diff a) = length a - 1"
  by (simp add: np_diff_def)

lemma np_diff_nth:
  fixes a :: "real list"
  assumes "Suc i < length a"
  shows "np_diff a ! i = a ! Suc i - a ! i"
  using assms by (simp add: np_diff_def nth_tl nth_butlast)

lemma dedges_min:
  assumes lh: "lo < hi" and n: "0 < n"
  shows "np_min (np_diff (linspace lo hi (n + 1))) = Inr ((hi - lo) / real n)"
proof -
  let ?es = "linspace lo hi (n + 1)"
  define w where "w = (hi - lo) / real n"
  have be: "\<And>k. bin_edge lo hi n k = lo + real k * w" by (simp add: bin_edge_def w_def)
  have len: "length (np_diff ?es) = n" by (simp add: np_diff_length linspace_length)
  have each: "\<And>i. i < n \<Longrightarrow> np_diff ?es ! i = w"
  proof -
    fix i assume i: "i < n"
    have "np_diff ?es ! i = ?es ! Suc i - ?es ! i"
      using i by (intro np_diff_nth) (simp add: linspace_length)
    also have "\<dots> = bin_edge lo hi n (Suc i) - bin_edge lo hi n i"
      using edges_nth[OF n, of "Suc i" lo hi] edges_nth[OF n, of i lo hi] i by simp
    also have "\<dots> = w" unfolding be by (simp add: algebra_simps)
    finally show "np_diff ?es ! i = w" .
  qed
  have ne: "np_diff ?es \<noteq> []" using len n by auto
  have "set (np_diff ?es) = {w}"
  proof
    show "set (np_diff ?es) \<subseteq> {w}" using each len by (auto simp: in_set_conv_nth)
    have "np_diff ?es ! 0 \<in> set (np_diff ?es)" using len n by (intro nth_mem) simp
    then show "{w} \<subseteq> set (np_diff ?es)" using each[OF n] by simp
  qed
  then show ?thesis using np_min_Min[OF ne] by (simp add: w_def)
qed

lemma map2_map_same: "map2 f (map g xs) xs = map (\<lambda>v. f (g v) v) xs"
  by (induction xs) auto

lemma bin_sum_reindex:
  fixes w :: "'a::monoid_add list"
  shows "sum_list (map snd (filter (\<lambda>p. fst p = b) (zip (map g x) w))) =
         sum_list (map snd (filter (\<lambda>p. g (fst p) = b) (zip x w)))"
proof (induction x arbitrary: w)
  case Nil then show ?case by simp
next
  case (Cons a x)
  then show ?case by (cases w) auto
qed

lemma bin_count_ones:
  "sum_list (map snd (filter (\<lambda>p. Q (fst p)) (zip x (replicate (length x) (1::nat))))) =
   length (filter Q x)"
  by (induction x) auto

lemma filter_zip_fst_length:
  "length values = length x \<Longrightarrow>
   length (filter (\<lambda>p. Q (fst p)) (zip x values)) = length (filter Q x)"
proof (induction x arbitrary: "values")
  case Nil then show ?case by simp
next
  case (Cons a x)
  then show ?case by (cases "values") auto
qed

lemma digitize_sorted:
  "sorted bins \<Longrightarrow> digitize x bins = Inr (map (\<lambda>v. length (filter (\<lambda>e. e \<le> v) bins)) x)"
  by (simp add: digitize_def)

lemma binned_statistic_mean:
  assumes lh: "lo < hi" and n: "0 < n" and len: "length values = length x"
  shows "\<exists>stat. binned_statistic x values n (lo, hi) = Inr stat \<and> length stat = n \<and>
           (\<forall>i < n. stat ! i =
              (if samples_in_scipy_bin lo hi n i x values = [] then None
               else Some (mean (map snd (samples_in_scipy_bin lo hi n i x values)))))"
proof -
  let ?es = "linspace lo hi (n + 1)"
  let ?d = "edge_decimals lo hi n"
  let ?bn = "bin_number ?es ?d"
  let ?cnt = "bincount (map ?bn x) (replicate (length (map ?bn x)) (1::nat)) (n + 2)"
  let ?sum = "bincount (map ?bn x) values (n + 2)"
  let ?res = "map2 (\<lambda>s c. if c \<noteq> 0 then Some (s / real c) else None) ?sum ?cnt"
  have srt: "sorted ?es" using lh by (intro linspace_sorted) simp
  have dg: "digitize x ?es = Inr (map (\<lambda>v. length (filter (\<lambda>e. e \<le> v) ?es)) x)"
    by (rule digitize_sorted[OF srt])
  have bns: "map2 (\<lambda>b v. if on_edge (last ?es) ?d v then b - 1 else b)
               (map (\<lambda>v. length (filter (\<lambda>e. e \<le> v) ?es)) x) x = map ?bn x"
    unfolding map2_map_same by (simp add: bin_number_def)
  have dm: "np_min (np_diff ?es) = Inr ((hi - lo) / real n)" by (rule dedges_min[OF lh n])
  have pos: "\<not> (hi - lo) / real n \<le> 0" using lh n by (simp add: not_le)
  have dec: "py_int (- log 10 ((hi - lo) / real n)) + 6 = ?d" by (simp add: edge_decimals_def)
  have run: "binned_statistic x values n (lo, hi) = Inr (take n (drop 1 ?res))"
    unfolding binned_statistic_def using lh len pos
    by (simp add: dg dm dec bind_err_def Let_def bns del: One_nat_def)
  have lres: "length ?res = n + 2" by (simp add: bincount_length)
  have cell: "\<forall>i < n. take n (drop 1 ?res) ! i =
              (if samples_in_scipy_bin lo hi n i x values = [] then None
               else Some (mean (map snd (samples_in_scipy_bin lo hi n i x values))))"
  proof (intro allI impI)
    fix i assume i: "i < n"
    let ?S = "samples_in_scipy_bin lo hi n i x values"
    have eqp: "\<And>v. (?bn v = Suc i) = in_scipy_bin lo hi n i v" by (rule bin_number_iff[OF lh n i])
    have c: "?cnt ! Suc i = length ?S"
    proof -
      have "?cnt ! Suc i = sum_list (map snd (filter (\<lambda>p. fst p = Suc i)
                (zip (map ?bn x) (replicate (length (map ?bn x)) (1::nat)))))"
        using i by (intro bincount_nth) simp
      also have "\<dots> = sum_list (map snd (filter (\<lambda>p. ?bn (fst p) = Suc i)
                (zip x (replicate (length x) (1::nat)))))"
        unfolding bin_sum_reindex by simp
      also have "\<dots> = length (filter (\<lambda>v. ?bn v = Suc i) x)" by (rule bin_count_ones)
      also have "\<dots> = length (filter (\<lambda>p. ?bn (fst p) = Suc i) (zip x values))"
        by (rule filter_zip_fst_length[OF len, symmetric])
      finally show ?thesis unfolding samples_in_scipy_bin_def eqp .
    qed
    have s: "?sum ! Suc i = sum_list (map snd ?S)"
    proof -
      have "?sum ! Suc i = sum_list (map snd (filter (\<lambda>p. fst p = Suc i) (zip (map ?bn x) values)))"
        using i by (intro bincount_nth) simp
      also have "\<dots> = sum_list (map snd (filter (\<lambda>p. ?bn (fst p) = Suc i) (zip x values)))"
        by (rule bin_sum_reindex)
      finally show ?thesis unfolding samples_in_scipy_bin_def eqp .
    qed
    have "take n (drop 1 ?res) ! i = ?res ! Suc i" using i lres by simp
    also have "\<dots> = (if ?cnt ! Suc i \<noteq> 0 then Some (?sum ! Suc i / real (?cnt ! Suc i)) else None)"
      using i by (simp add: bincount_length del: One_nat_def)
    also have "\<dots> = (if ?S = [] then None else Some (mean (map snd ?S)))"
      unfolding c s by (simp add: mean_def)
    finally show "take n (drop 1 ?res) ! i =
              (if ?S = [] then None else Some (mean (map snd ?S)))" .
  qed
  have "length (take n (drop 1 ?res)) = n" using lres by simp
  with run cell show ?thesis by blast
qed

lemma binned_statistic_eval:
  assumes lh: "lo < hi" and n: "0 < n" and len: "length values = length x"
  shows "binned_statistic x values n (lo, hi) =
           Inr (map (\<lambda>i. if samples_in_scipy_bin lo hi n i x values = [] then None
                         else Some (mean (map snd (samples_in_scipy_bin lo hi n i x values))))
                  [0..<n])"
proof -
  from binned_statistic_mean[OF lh n len] obtain stat where
    st: "binned_statistic x values n (lo, hi) = Inr stat" "length stat = n"
        "\<forall>i < n. stat ! i =
              (if samples_in_scipy_bin lo hi n i x values = [] then None
               else Some (mean (map snd (samples_in_scipy_bin lo hi n i x values))))" by blast
  have "stat = map (\<lambda>i. if samples_in_scipy_bin lo hi n i x values = [] then None
                         else Some (mean (map snd (samples_in_scipy_bin lo hi n i x values))))
                  [0..<n]"
    using st(2,3) by (intro nth_equalityI) simp_all
  with st(1) show ?thesis by simp
qed

section \<open>Properties of confidence\_trajectories\<close>

lemma helper_value:
  assumes s: "sorted conf" and ex: "\<exists>x \<in> set conf. x \<le> t"
  defines "m \<equiv> Max {x \<in> set conf. x \<le> t}"
  shows "\<exists>i. index_of_max_element_below_thresh conf t = Inr i \<and> i < length conf \<and>
             conf ! i = m \<and> i = length (filter (\<lambda>v. v < m) conf) \<and>
             cummean conf ! i = mean (filter (\<lambda>v. v < m) conf @ [m])"
proof -
  let ?sel = "filter (\<lambda>v. v \<le> t) conf"
  from ex have ne: "conf \<noteq> []" and selne: "?sel \<noteq> []" by (auto simp: filter_empty_conv)
  have minle: "\<not> Min (set conf) > t"
    using ex ne by (meson List.finite_set Min_le leD le_less_trans not_le_imp_less order.trans)
  have idx: "index_of_max_element_below_thresh conf t = np_argmax ?sel"
    unfolding index_of_max_element_below_thresh_def np_min_Min[OF ne] using minle by simp
  from np_argmax_spec[OF selne] obtain i where
    i: "np_argmax ?sel = Inr i" "i < length ?sel" "\<forall>v \<in> set ?sel. v \<le> ?sel ! i" "\<forall>j < i. ?sel ! j < ?sel ! i"
    by blast
  have tk: "?sel = take (length ?sel) conf" by (rule sorted_filter_take[OF s])
  have ilen: "i < length conf" using i(2) by (meson length_filter_le less_le_trans)
  have nth: "\<And>j. j < length ?sel \<Longrightarrow> ?sel ! j = conf ! j"
    by (metis tk nth_take)
  have setsel: "set ?sel = {x \<in> set conf. x \<le> t}" by auto
  have "?sel ! i \<in> set ?sel" using i(2) by (rule nth_mem)
  then have "?sel ! i = Max (set ?sel)" using i(3) by (intro Max_eqI[symmetric]) auto
  then have ci: "conf ! i = m" using nth[OF i(2)] by (simp add: m_def setsel del: set_filter)
  have "\<forall>j < i. conf ! j < conf ! i" using i(2,4) nth by auto
  then have fi: "length (filter (\<lambda>v. v < conf ! i) conf) = i"
    by (rule sorted_first_index[OF s ilen])
  have "filter (\<lambda>v. v < m) conf = take i conf"
    using sorted_filter_less_take[OF s, of m] fi ci by simp
  then have "filter (\<lambda>v. v < m) conf @ [m] = take (Suc i) conf"
    using ci ilen by (simp add: take_Suc_conv_app_nth)
  then have "cummean conf ! i = mean (filter (\<lambda>v. v < m) conf @ [m])"
    using cummean_nth[OF ilen] ilen unfolding mean_def by simp
  then show ?thesis using idx i(1) ilen ci fi by auto
qed

lemma helper_total:
  assumes ne: "conf \<noteq> []"
  shows "\<exists>i. index_of_max_element_below_thresh conf t = Inr i \<and> i < length conf"
proof (cases "Min (set conf) > t")
  case True
  then show ?thesis using ne
    by (simp add: index_of_max_element_below_thresh_def np_min_Min)
next
  case False
  let ?sel = "filter (\<lambda>v. v \<le> t) conf"
  have "Min (set conf) \<in> set conf" using ne by (intro Min_in) auto
  with False have selne: "?sel \<noteq> []"
    by (auto simp: filter_empty_conv not_less intro!: bexI[of _ "Min (set conf)"])
  from np_argmax_spec[OF selne] obtain i where i: "np_argmax ?sel = Inr i" "i < length ?sel"
    by blast
  have "i < length conf" using i(2) by (meson length_filter_le less_le_trans)
  then show ?thesis using False i(1)
    unfolding index_of_max_element_below_thresh_def np_min_Min[OF ne] by simp
qed

lemma helper_selection_nonempty:
  assumes ne: "conf \<noteq> []" and "\<not> Min (set conf) > t"
  shows "filter (\<lambda>v. v \<le> t) conf \<noteq> []"
proof -
  have "Min (set conf) \<in> set conf" using ne by (intro Min_in) auto
  with assms(2) show ?thesis
    by (auto simp: filter_empty_conv not_less intro!: bexI[of _ "Min (set conf)"])
qed

lemma helper_below_min:
  assumes ne: "conf \<noteq> []" and "t < Min (set conf)"
  shows "index_of_max_element_below_thresh conf t = Inr 0"
  using assms by (simp add: index_of_max_element_below_thresh_def np_min_Min)

lemma cummean_first:
  assumes "sorted conf" "conf \<noteq> []"
  shows "cummean conf ! 0 = Min (set conf)"
proof -
  obtain x r where c: "conf = x # r" using assms(2) by (cases conf) auto
  have "Min (set conf) = x" using assms(1) unfolding c
    by (intro Min_eqI) auto
  moreover have "cummean conf ! 0 = x" using cummean_nth[of 0 conf] c by simp
  ultimately show ?thesis by simp
qed

lemma trajectory_indices:
  assumes ne: "conf \<noteq> []"
  shows "\<exists>idx vals. map_err (index_of_max_element_below_thresh conf) ts = Inr idx \<and>
           take_indices (cummean conf) idx = Inr vals \<and> length vals = length ts \<and>
           (\<forall>k < length ts. index_of_max_element_below_thresh conf (ts ! k) = Inr (idx ! k) \<and>
                 idx ! k < length conf \<and> vals ! k = cummean conf ! (idx ! k))"
proof -
  from map_err_total[of ts "index_of_max_element_below_thresh conf"] helper_total[OF ne]
  obtain idx where idx: "map_err (index_of_max_element_below_thresh conf) ts = Inr idx"
    by blast
  then have il: "length idx = length ts"
    and ik: "\<forall>k < length ts. index_of_max_element_below_thresh conf (ts ! k) = Inr (idx ! k)"
    by (simp_all add: map_err_Inr_iff)
  have ib: "\<forall>k < length ts. idx ! k < length conf"
  proof (intro allI impI)
    fix k assume "k < length ts"
    with ik helper_total[OF ne, of "ts ! k"] show "idx ! k < length conf" by auto
  qed
  have "take_indices (cummean conf) idx = Inr (map (\<lambda>i. cummean conf ! i) idx)"
    unfolding take_indices_def map_err_Inr_iff using ib il by (simp add: cummean_length)
  then show ?thesis using idx il ik ib by auto
qed

lemma confidence_trajectories_run:
  assumes sc: "sorted_confidences y y_pred p_pred = Inr (cc, cf)"
      and ne: "cc \<noteq> []" "cf \<noteq> []"
      and nc: "(case n_classes of None \<Rightarrow> length (np_unique y) | Some c \<Rightarrow> c) = nc" "nc \<noteq> 0"
  shows "\<exists>r. confidence_trajectories y y_pred p_pred n_classes n = Inr r \<and>
           traj_n_classes r = nc \<and>
           traj_thresholds r = linspace (1 / real nc) 1 n \<and>
           length (avg_conf_correct r) = n \<and> length (avg_conf_false r) = n \<and>
           (\<forall>k < n. \<exists>i. index_of_max_element_below_thresh cc (traj_thresholds r ! k) = Inr i \<and>
                 i < length cc \<and> avg_conf_correct r ! k = cummean cc ! i) \<and>
           (\<forall>k < n. \<exists>i. index_of_max_element_below_thresh cf (traj_thresholds r ! k) = Inr i \<and>
                 i < length cf \<and> avg_conf_false r ! k = cummean cf ! i)"
proof -
  let ?ts = "linspace (1 / real nc) 1 n"
  from trajectory_indices[OF ne(1), of ?ts] obtain ic vc where
    c: "map_err (index_of_max_element_below_thresh cc) ?ts = Inr ic"
       "take_indices (cummean cc) ic = Inr vc" "length vc = length ?ts"
       "\<forall>k < length ?ts. index_of_max_element_below_thresh cc (?ts ! k) = Inr (ic ! k) \<and>
                 ic ! k < length cc \<and> vc ! k = cummean cc ! (ic ! k)"
    by blast
  from trajectory_indices[OF ne(2), of ?ts] obtain jf vf where
    f: "map_err (index_of_max_element_below_thresh cf) ?ts = Inr jf"
       "take_indices (cummean cf) jf = Inr vf" "length vf = length ?ts"
       "\<forall>k < length ?ts. index_of_max_element_below_thresh cf (?ts ! k) = Inr (jf ! k) \<and>
                 jf ! k < length cf \<and> vf ! k = cummean cf ! (jf ! k)"
    by blast
  have run: "confidence_trajectories y y_pred p_pred n_classes n =
      Inr \<lparr>traj_n_classes = nc, traj_thresholds = ?ts, avg_conf_correct = vc, avg_conf_false = vf\<rparr>"
    unfolding confidence_trajectories_def
    using sc nc c(1,2) f(1,2) by (simp add: bind_err_def py_recip_def Let_def)
  show ?thesis
    unfolding run using c(3,4) f(3,4) by (simp add: linspace_length)
qed

lemma sorted_confidences_sorted:
  assumes "sorted_confidences y y_pred p_pred = Inr (cc, cf)"
  shows "sorted cc \<and> sorted cf"
  using assms unfolding sorted_confidences_def bind_err_def
  by (auto split: sum.splits)

lemma sorted_filter_le_split:
  "sorted (xs::real list) \<Longrightarrow>
     filter (\<lambda>v. v \<le> m) xs = filter (\<lambda>v. v < m) xs @ filter (\<lambda>v. v = m) xs"
proof (induction xs)
  case Nil then show ?case by simp
next
  case (Cons x xs)
  show ?case
  proof (cases "x < m")
    case True with Cons show ?thesis by simp
  next
    case False
    with Cons.prems have "\<forall>v \<in> set xs. \<not> v < m" by auto
    then have "filter (\<lambda>v. v < m) xs = []" by (simp add: filter_empty_conv)
    with False Cons show ?thesis by auto
  qed
qed

lemma filter_eq_count: "filter (\<lambda>v. v = m) xs = replicate (count_list xs m) m"
  by (induction xs) auto

lemma below_thresh_selection:
  assumes s: "sorted (conf::real list)" and ex: "\<exists>x \<in> set conf. x \<le> t"
  defines "m \<equiv> Max {x \<in> set conf. x \<le> t}"
  shows "filter (\<lambda>v. v \<le> t) conf = filter (\<lambda>v. v < m) conf @ replicate (count_list conf m) m"
proof -
  have fin: "finite {x \<in> set conf. x \<le> t}" by simp
  have nonempty: "{x \<in> set conf. x \<le> t} \<noteq> {}" using ex by auto
  have "m \<in> {x \<in> set conf. x \<le> t}" unfolding m_def by (rule Max_in[OF fin nonempty])
  then have mt: "m \<le> t" by simp
  have "\<And>v. v \<in> set conf \<Longrightarrow> (v \<le> t) = (v \<le> m)"
  proof -
    fix v assume v: "v \<in> set conf"
    show "(v \<le> t) = (v \<le> m)"
    proof
      assume "v \<le> t"
      then show "v \<le> m" unfolding m_def using v by (intro Max_ge) auto
    next
      assume "v \<le> m" with mt show "v \<le> t" by simp
    qed
  qed
  then have "filter (\<lambda>v. v \<le> t) conf = filter (\<lambda>v. v \<le> m) conf"
    by (intro filter_cong) auto
  then show ?thesis using sorted_filter_le_split[OF s, of m] by (simp add: filter_eq_count)
qed

lemma trajectory_value_sorted:
  assumes s: "sorted conf" and ne: "below_thresh conf t \<noteq> []"
      and i: "index_of_max_element_below_thresh conf t = Inr i"
  shows "cummean conf ! i = mean (up_to_first_largest conf t) \<and>
         (count_list conf (largest_below conf t) = 1 \<longrightarrow>
            cummean conf ! i = mean (below_thresh conf t))"
proof -
  from ne have ex: "\<exists>x \<in> set conf. x \<le> t"
    by (auto simp: below_thresh_def filter_empty_conv)
  have m: "largest_below conf t = Max {x \<in> set conf. x \<le> t}"
    by (simp add: largest_below_def below_thresh_def)
  from helper_value[OF s ex] i
  have v: "cummean conf ! i = mean (up_to_first_largest conf t)"
    by (auto simp: up_to_first_largest_def m)
  have "below_thresh conf t =
        filter (\<lambda>v. v < largest_below conf t) conf @
        replicate (count_list conf (largest_below conf t)) (largest_below conf t)"
    unfolding below_thresh_def m by (rule below_thresh_selection[OF s ex])
  then have "count_list conf (largest_below conf t) = 1 \<Longrightarrow>
        below_thresh conf t = up_to_first_largest conf t"
    by (simp add: up_to_first_largest_def)
  with v show ?thesis by simp
qed

lemma trajectory_below_min:
  assumes s: "sorted conf" and ne: "conf \<noteq> []" and t: "t < Min (set conf)"
  shows "index_of_max_element_below_thresh conf t = Inr 0 \<and> cummean conf ! 0 = Min (set conf)"
  using helper_below_min[OF ne t] cummean_first[OF s ne] by simp

text \<open>
  Claim C10. When both sorted confidence arrays are non-empty and the class count is not
  zero, \<open>confidence_trajectories\<close> returns. The helper returns an index within the array for
  every threshold; whenever the minimum is not above the threshold, the selection whose
  argmax is taken is non-empty; and at a threshold strictly below the minimum the helper
  returns index 0 and the trajectory value is the smallest confidence.
\<close>

theorem helper_never_argmax_of_empty:
  assumes sc: "sorted_confidences y y_pred p_pred = Inr (cc, cf)"
      and ne: "cc \<noteq> []" "cf \<noteq> []"
      and nc: "(case n_classes of None \<Rightarrow> length (np_unique y) | Some c \<Rightarrow> c) \<noteq> 0"
  shows "\<exists>r. confidence_trajectories y y_pred p_pred n_classes n = Inr r \<and>
           (\<forall>t. \<exists>i. index_of_max_element_below_thresh cc t = Inr i \<and> i < length cc) \<and>
           (\<forall>t. \<exists>i. index_of_max_element_below_thresh cf t = Inr i \<and> i < length cf) \<and>
           (\<forall>t. \<not> t < Min (set cc) \<longrightarrow> below_thresh cc t \<noteq> []) \<and>
           (\<forall>t. \<not> t < Min (set cf) \<longrightarrow> below_thresh cf t \<noteq> []) \<and>
           (\<forall>k < n. traj_thresholds r ! k < Min (set cc) \<longrightarrow>
                index_of_max_element_below_thresh cc (traj_thresholds r ! k) = Inr 0 \<and>
                avg_conf_correct r ! k = Min (set cc)) \<and>
           (\<forall>k < n. traj_thresholds r ! k < Min (set cf) \<longrightarrow>
                index_of_max_element_below_thresh cf (traj_thresholds r ! k) = Inr 0 \<and>
                avg_conf_false r ! k = Min (set cf))"
proof -
  from sorted_confidences_sorted[OF sc] have s: "sorted cc" "sorted cf" by simp_all
  from confidence_trajectories_run[OF sc ne refl nc, of n] obtain r where
    run: "confidence_trajectories y y_pred p_pred n_classes n = Inr r"
    and c: "\<forall>k < n. \<exists>i. index_of_max_element_below_thresh cc (traj_thresholds r ! k) = Inr i \<and>
                 i < length cc \<and> avg_conf_correct r ! k = cummean cc ! i"
    and f: "\<forall>k < n. \<exists>i. index_of_max_element_below_thresh cf (traj_thresholds r ! k) = Inr i \<and>
                 i < length cf \<and> avg_conf_false r ! k = cummean cf ! i"
    by blast
  have tc: "\<forall>t. \<exists>i. index_of_max_element_below_thresh cc t = Inr i \<and> i < length cc"
    using helper_total[OF ne(1)] by blast
  have tf: "\<forall>t. \<exists>i. index_of_max_element_below_thresh cf t = Inr i \<and> i < length cf"
    using helper_total[OF ne(2)] by blast
  have sc': "\<forall>t. \<not> t < Min (set cc) \<longrightarrow> below_thresh cc t \<noteq> []"
    using helper_selection_nonempty[OF ne(1)] by (simp add: below_thresh_def)
  have sf': "\<forall>t. \<not> t < Min (set cf) \<longrightarrow> below_thresh cf t \<noteq> []"
    using helper_selection_nonempty[OF ne(2)] by (simp add: below_thresh_def)
  have vc: "\<forall>k < n. traj_thresholds r ! k < Min (set cc) \<longrightarrow>
                index_of_max_element_below_thresh cc (traj_thresholds r ! k) = Inr 0 \<and>
                avg_conf_correct r ! k = Min (set cc)"
  proof (intro allI impI)
    fix k assume k: "k < n" and t: "traj_thresholds r ! k < Min (set cc)"
    from trajectory_below_min[OF s(1) ne(1) t] c k
    show "index_of_max_element_below_thresh cc (traj_thresholds r ! k) = Inr 0 \<and>
                avg_conf_correct r ! k = Min (set cc)" by auto
  qed
  have vf: "\<forall>k < n. traj_thresholds r ! k < Min (set cf) \<longrightarrow>
                index_of_max_element_below_thresh cf (traj_thresholds r ! k) = Inr 0 \<and>
                avg_conf_false r ! k = Min (set cf)"
  proof (intro allI impI)
    fix k assume k: "k < n" and t: "traj_thresholds r ! k < Min (set cf)"
    from trajectory_below_min[OF s(2) ne(2) t] f k
    show "index_of_max_element_below_thresh cf (traj_thresholds r ! k) = Inr 0 \<and>
                avg_conf_false r ! k = Min (set cf)" by auto
  qed
  from run tc tf sc' sf' vc vf show ?thesis by blast
qed

theorem helper_never_argmax_of_empty_witness:
  "sorted_confidences [0, 1, 1, 0] [0, 1, 0, 1]
       [[9/10, 1/10], [2/10, 8/10], [6/10, 4/10], [3/10, 7/10]] = Inr ([4/5, 9/10], [3/5, 7/10]) \<and>
   confidence_trajectories [0, 1, 1, 0] [0, 1, 0, 1]
       [[9/10, 1/10], [2/10, 8/10], [6/10, 4/10], [3/10, 7/10]] None 3 =
     Inr \<lparr>traj_n_classes = 2, traj_thresholds = [1/2, 3/4, 1],
          avg_conf_correct = [4/5, 4/5, 17/20], avg_conf_false = [3/5, 13/20, 13/20]\<rparr> \<and>
   (3/4 :: real) < Min (set [4/5, 9/10]) \<and>
   index_of_max_element_below_thresh [4/5, 9/10] (3/4) = Inr 0 \<and>
   [4/5, 4/5, 17/20 :: real] ! 1 = Min (set [4/5, 9/10])"
proof -
  let ?y = "[0, 1, 1, 0] :: int list" and ?yp = "[0, 1, 0, 1] :: int list"
  let ?p = "[[9/10, 1/10], [2/10, 8/10], [6/10, 4/10], [3/10, 7/10]] :: real list list"
  have sc: "sorted_confidences ?y ?yp ?p = Inr ([4/5, 9/10], [3/5, 7/10])" by code_simp
  have nc: "(case None of None \<Rightarrow> length (np_unique ?y) | Some c \<Rightarrow> c) \<noteq> 0" by code_simp
  have ev: "confidence_trajectories ?y ?yp ?p None 3 =
     Inr \<lparr>traj_n_classes = 2, traj_thresholds = [1/2, 3/4, 1],
          avg_conf_correct = [4/5, 4/5, 17/20], avg_conf_false = [3/5, 13/20, 13/20]\<rparr>"
    by code_simp
  have lt: "(3/4 :: real) < Min (set [4/5, 9/10])" by simp
  from helper_never_argmax_of_empty[OF sc _ _ nc, of 3] ev
  have "\<forall>k < 3. [1/2, 3/4, 1 :: real] ! k < Min (set [4/5, 9/10]) \<longrightarrow>
          index_of_max_element_below_thresh [4/5, 9/10] ([1/2, 3/4, 1] ! k) = Inr 0 \<and>
          [4/5, 4/5, 17/20 :: real] ! k = Min (set [4/5, 9/10])"
    by auto
  from this[rule_format, of 1] lt
  have "index_of_max_element_below_thresh [4/5, 9/10] (3/4) = Inr 0 \<and>
        [4/5, 4/5, 17/20 :: real] ! 1 = Min (set [4/5, 9/10])" by simp
  with sc ev lt show ?thesis by blast
qed


lemma trajectory_value_first_occurrence:
  assumes sc: "sorted_confidences y y_pred p_pred = Inr (cc, cf)"
      and ne: "cc \<noteq> []" "cf \<noteq> []"
      and nc: "(case n_classes of None \<Rightarrow> length (np_unique y) | Some c \<Rightarrow> c) \<noteq> 0"
  shows "\<exists>r. confidence_trajectories y y_pred p_pred n_classes n = Inr r \<and>
           (\<forall>k < n. below_thresh cc (traj_thresholds r ! k) \<noteq> [] \<longrightarrow>
                avg_conf_correct r ! k = mean (up_to_first_largest cc (traj_thresholds r ! k)) \<and>
                (count_list cc (largest_below cc (traj_thresholds r ! k)) = 1 \<longrightarrow>
                   avg_conf_correct r ! k = mean (below_thresh cc (traj_thresholds r ! k)))) \<and>
           (\<forall>k < n. below_thresh cf (traj_thresholds r ! k) \<noteq> [] \<longrightarrow>
                avg_conf_false r ! k = mean (up_to_first_largest cf (traj_thresholds r ! k)) \<and>
                (count_list cf (largest_below cf (traj_thresholds r ! k)) = 1 \<longrightarrow>
                   avg_conf_false r ! k = mean (below_thresh cf (traj_thresholds r ! k))))"
proof -
  from sorted_confidences_sorted[OF sc] have s: "sorted cc" "sorted cf" by simp_all
  from confidence_trajectories_run[OF sc ne refl nc, of n] obtain r where
    run: "confidence_trajectories y y_pred p_pred n_classes n = Inr r"
    and c: "\<forall>k < n. \<exists>i. index_of_max_element_below_thresh cc (traj_thresholds r ! k) = Inr i \<and>
                 i < length cc \<and> avg_conf_correct r ! k = cummean cc ! i"
    and f: "\<forall>k < n. \<exists>i. index_of_max_element_below_thresh cf (traj_thresholds r ! k) = Inr i \<and>
                 i < length cf \<and> avg_conf_false r ! k = cummean cf ! i"
    by blast
  have vc: "\<forall>k < n. below_thresh cc (traj_thresholds r ! k) \<noteq> [] \<longrightarrow>
                avg_conf_correct r ! k = mean (up_to_first_largest cc (traj_thresholds r ! k)) \<and>
                (count_list cc (largest_below cc (traj_thresholds r ! k)) = 1 \<longrightarrow>
                   avg_conf_correct r ! k = mean (below_thresh cc (traj_thresholds r ! k)))"
  proof (intro allI impI)
    fix k assume k: "k < n" and b: "below_thresh cc (traj_thresholds r ! k) \<noteq> []"
    from c k obtain i where
      i: "index_of_max_element_below_thresh cc (traj_thresholds r ! k) = Inr i"
         "avg_conf_correct r ! k = cummean cc ! i" by blast
    show "avg_conf_correct r ! k = mean (up_to_first_largest cc (traj_thresholds r ! k)) \<and>
                (count_list cc (largest_below cc (traj_thresholds r ! k)) = 1 \<longrightarrow>
                   avg_conf_correct r ! k = mean (below_thresh cc (traj_thresholds r ! k)))"
      unfolding i(2) by (rule trajectory_value_sorted[OF s(1) b i(1)])
  qed
  have vf: "\<forall>k < n. below_thresh cf (traj_thresholds r ! k) \<noteq> [] \<longrightarrow>
                avg_conf_false r ! k = mean (up_to_first_largest cf (traj_thresholds r ! k)) \<and>
                (count_list cf (largest_below cf (traj_thresholds r ! k)) = 1 \<longrightarrow>
                   avg_conf_false r ! k = mean (below_thresh cf (traj_thresholds r ! k)))"
  proof (intro allI impI)
    fix k assume k: "k < n" and b: "below_thresh cf (traj_thresholds r ! k) \<noteq> []"
    from f k obtain i where
      i: "index_of_max_element_below_thresh cf (traj_thresholds r ! k) = Inr i"
         "avg_conf_false r ! k = cummean cf ! i" by blast
    show "avg_conf_false r ! k = mean (up_to_first_largest cf (traj_thresholds r ! k)) \<and>
                (count_list cf (largest_below cf (traj_thresholds r ! k)) = 1 \<longrightarrow>
                   avg_conf_false r ! k = mean (below_thresh cf (traj_thresholds r ! k)))"
      unfolding i(2) by (rule trajectory_value_sorted[OF s(2) b i(1)])
  qed
  from run vc vf show ?thesis by blast
qed

text \<open>
  Claim C4. With the labels 0, 0, 0, 1, the predictions 0, 0, 0, 0 and the confidences
  0.5, 0.9, 0.9, 0.8, the sorted confidences of the correct predictions are 0.5, 0.9, 0.9.
  At the threshold 1 all three are at most the threshold and their mean is 23/30; the
  trajectory value is 0.7, the mean of 0.5 and the first 0.9. \<open>np.argmax\<close> returns the
  first occurrence of the largest confidence at most the threshold, so that its further
  copies are left out of the running mean (lemma \<open>trajectory_value_first_occurrence\<close>).
\<close>

theorem trajectory_duplicates_left_out:
  "sorted_confidences [0, 0, 0, 1] [0, 0, 0, 0]
       [[1/2, 1/2], [9/10, 1/10], [9/10, 1/10], [4/5, 1/5]] = Inr ([1/2, 9/10, 9/10], [4/5]) \<and>
   confidence_trajectories [0, 0, 0, 1] [0, 0, 0, 0]
       [[1/2, 1/2], [9/10, 1/10], [9/10, 1/10], [4/5, 1/5]] None 2 =
     Inr \<lparr>traj_n_classes = 2, traj_thresholds = [1/2, 1],
          avg_conf_correct = [1/2, 7/10], avg_conf_false = [4/5, 4/5]\<rparr> \<and>
   below_thresh [1/2, 9/10, 9/10] 1 = [1/2, 9/10, 9/10] \<and>
   mean (below_thresh [1/2, 9/10, 9/10] 1) = 23/30 \<and>
   [1/2, 7/10 :: real] ! 1 \<noteq> mean (below_thresh [1/2, 9/10, 9/10] 1)"
proof -
  have a: "sorted_confidences [0, 0, 0, 1] [0, 0, 0, 0]
       [[1/2, 1/2], [9/10, 1/10], [9/10, 1/10], [4/5, 1/5]] = Inr ([1/2, 9/10, 9/10], [4/5])"
    by code_simp
  have b: "confidence_trajectories [0, 0, 0, 1] [0, 0, 0, 0]
       [[1/2, 1/2], [9/10, 1/10], [9/10, 1/10], [4/5, 1/5]] None 2 =
     Inr \<lparr>traj_n_classes = 2, traj_thresholds = [1/2, 1],
          avg_conf_correct = [1/2, 7/10], avg_conf_false = [4/5, 4/5]\<rparr>"
    by code_simp
  have c: "below_thresh [1/2, 9/10, 9/10] 1 = [1/2, 9/10, 9/10]"
    by (simp add: below_thresh_def)
  have d: "mean (below_thresh [1/2, 9/10, 9/10] 1) = 23/30"
    unfolding c by (simp add: mean_def)
  have e: "[1/2, 7/10 :: real] ! 1 \<noteq> mean (below_thresh [1/2, 9/10, 9/10] 1)"
    unfolding d by simp
  from a b c d e show ?thesis by blast
qed

section \<open>Properties of reliability\_diagram\<close>

lemma np_max_Inr: "np_max xs = Inr m \<Longrightarrow> xs \<noteq> [] \<and> m = Max (set xs)"
  using np_max_Max[of xs] by (cases xs) (auto simp: np_max_def)

lemma np_argmax_Inr:
  assumes "np_argmax xs = Inr i"
  shows "xs \<noteq> [] \<and> i < length xs \<and> xs ! i = Max (set xs) \<and> (\<forall>j < i. xs ! j < xs ! i)"
proof -
  from assms have ne: "xs \<noteq> []" by (cases xs) (auto simp: np_argmax_def)
  from np_argmax_spec[OF ne] assms
  have i: "i < length xs" "\<forall>v \<in> set xs. v \<le> xs ! i" "\<forall>j < i. xs ! j < xs ! i" by auto
  have "Max (set xs) = xs ! i" using i(1,2) by (intro Max_eqI) auto
  with ne i show ?thesis by simp
qed

lemma rows_reduced:
  assumes a: "argmax_axis1 p_pred = Inr yp" and m: "max_axis1 p_pred = Inr pm"
  shows "length yp = length p_pred \<and> length pm = length p_pred \<and>
         (\<forall>k < length p_pred.
            np_argmax (p_pred ! k) = Inr (yp ! k) \<and> np_max (p_pred ! k) = Inr (pm ! k) \<and>
            yp ! k < length (p_pred ! k) \<and> pm ! k = p_pred ! k ! (yp ! k) \<and>
            pm ! k = Max (set (p_pred ! k)))"
proof -
  from a have la: "length yp = length p_pred"
    and ka: "\<forall>k < length p_pred. np_argmax (p_pred ! k) = Inr (yp ! k)"
    by (simp_all add: argmax_axis1_def map_err_Inr_iff)
  from m have lm: "length pm = length p_pred"
    and km: "\<forall>k < length p_pred. np_max (p_pred ! k) = Inr (pm ! k)"
    by (simp_all add: max_axis1_def map_err_Inr_iff)
  have "\<forall>k < length p_pred.
            np_argmax (p_pred ! k) = Inr (yp ! k) \<and> np_max (p_pred ! k) = Inr (pm ! k) \<and>
            yp ! k < length (p_pred ! k) \<and> pm ! k = p_pred ! k ! (yp ! k) \<and>
            pm ! k = Max (set (p_pred ! k))"
  proof (intro allI impI)
    fix k assume k: "k < length p_pred"
    from ka k have 1: "np_argmax (p_pred ! k) = Inr (yp ! k)" by simp
    from km k have 2: "np_max (p_pred ! k) = Inr (pm ! k)" by simp
    from np_argmax_Inr[OF 1] np_max_Inr[OF 2] 1 2
    show "np_argmax (p_pred ! k) = Inr (yp ! k) \<and> np_max (p_pred ! k) = Inr (pm ! k) \<and>
            yp ! k < length (p_pred ! k) \<and> pm ! k = p_pred ! k ! (yp ! k) \<and>
            pm ! k = Max (set (p_pred ! k))" by simp
  qed
  with la lm show ?thesis by blast
qed

lemma rows_total:
  assumes "\<forall>row \<in> set p_pred. row \<noteq> []"
  shows "\<exists>yp pm. argmax_axis1 p_pred = Inr yp \<and> max_axis1 p_pred = Inr pm"
proof -
  have "\<exists>yp. map_err np_argmax p_pred = Inr yp"
    using assms np_argmax_spec by (intro map_err_total) blast
  moreover have "\<exists>pm. map_err np_max p_pred = Inr pm"
    using assms np_max_Max by (intro map_err_total) blast
  ultimately show ?thesis by (auto simp: argmax_axis1_def max_axis1_def)
qed

lemma reliability_series_Inr:
  assumes "reliability_series y p_pred n xlim = Inr r"
  shows "0 < n \<and> default_xlim y xlim = Inr (rs_xlim r) \<and>
         argmax_axis1 p_pred = Inr (rs_y_pred r) \<and> max_axis1 p_pred = Inr (rs_p_max r) \<and>
         rs_bins r = linspace (fst (rs_xlim r)) (snd (rs_xlim r)) (n + 1) \<and>
         rs_bin_means r = linspace (fst (rs_xlim r) + snd (rs_xlim r) / (2 * real n))
                                   (snd (rs_xlim r) - snd (rs_xlim r) / (2 * real n)) n \<and>
         (\<exists>hit stat. np_equal (map int (rs_y_pred r)) y = Inr hit \<and>
            binned_statistic (rs_p_max r) (map (\<lambda>b. if b then 1 else 0) hit) n (rs_xlim r) = Inr stat \<and>
            rs_empirical_acc r = map2 (\<lambda>e m. case e of None \<Rightarrow> m | Some a \<Rightarrow> a) stat (rs_bin_means r))"
  using assms unfolding reliability_series_def bind_err_def Let_def
  by (auto split: sum.splits if_splits)

lemma np_equal_same_length:
  "length a = length b \<Longrightarrow> np_equal a b = Inr (map2 (=) a b)"
  by (simp add: np_equal_def)

lemma hit_indicator_eq:
  "map (\<lambda>b. if b then 1 else 0) (map2 (=) (map int yp) y) = hit_indicator yp y"
  unfolding hit_indicator_def
proof (induction yp arbitrary: y)
  case Nil then show ?case by simp
next
  case (Cons a yp) then show ?case by (cases y) auto
qed

lemma reliability_series_run:
  assumes xl: "default_xlim y xlim = Inr (lo, hi)" and lh: "lo < hi" and n: "0 < n"
      and len: "length y = length p_pred" and rows: "\<forall>row \<in> set p_pred. row \<noteq> []"
  shows "\<exists>r. reliability_series y p_pred n xlim = Inr r \<and> rs_xlim r = (lo, hi) \<and>
           argmax_axis1 p_pred = Inr (rs_y_pred r) \<and> max_axis1 p_pred = Inr (rs_p_max r) \<and>
           rs_bins r = linspace lo hi (n + 1) \<and>
           rs_bin_means r = linspace (lo + hi / (2 * real n)) (hi - hi / (2 * real n)) n \<and>
           length (rs_empirical_acc r) = n \<and>
           (\<forall>i < n. rs_empirical_acc r ! i =
              (if samples_in_scipy_bin lo hi n i (rs_p_max r) (hit_indicator (rs_y_pred r) y) = []
               then rs_bin_means r ! i
               else mean (map snd
                 (samples_in_scipy_bin lo hi n i (rs_p_max r) (hit_indicator (rs_y_pred r) y)))))"
proof -
  from rows_total[OF rows] obtain yp pm where
    a: "argmax_axis1 p_pred = Inr yp" and m: "max_axis1 p_pred = Inr pm" by blast
  from rows_reduced[OF a m] have lyp: "length yp = length p_pred" and lpm: "length pm = length p_pred"
    by simp_all
  have eq: "np_equal (map int yp) y = Inr (map2 (=) (map int yp) y)"
    using lyp len by (intro np_equal_same_length) simp
  let ?hit = "hit_indicator yp y"
  have lhit: "length ?hit = length pm" using lyp lpm len by (simp add: hit_indicator_def)
  from binned_statistic_mean[OF lh n lhit] obtain stat where
    st: "binned_statistic pm ?hit n (lo, hi) = Inr stat" "length stat = n"
        "\<forall>i < n. stat ! i =
              (if samples_in_scipy_bin lo hi n i pm ?hit = [] then None
               else Some (mean (map snd (samples_in_scipy_bin lo hi n i pm ?hit))))" by blast
  let ?bm = "linspace (lo + hi / (2 * real n)) (hi - hi / (2 * real n)) n"
  let ?acc = "map2 (\<lambda>e m. case e of None \<Rightarrow> m | Some a \<Rightarrow> a) stat ?bm"
  let ?r = "\<lparr>rs_xlim = (lo, hi), rs_y_pred = yp, rs_p_max = pm, rs_bins = linspace lo hi (n + 1),
             rs_bin_means = ?bm, rs_empirical_acc = ?acc\<rparr>"
  have st1: "binned_statistic pm (map (\<lambda>b. if b then 1 else 0) (map2 (=) (map int yp) y)) n (lo, hi) =
      Inr stat"
    using st(1) by (simp only: hit_indicator_eq)
  have run: "reliability_series y p_pred n xlim = Inr ?r"
    unfolding reliability_series_def using xl a m n eq st1
    by (simp add: bind_err_def Let_def)
  have "\<forall>i < n. ?acc ! i =
              (if samples_in_scipy_bin lo hi n i pm ?hit = [] then ?bm ! i
               else mean (map snd (samples_in_scipy_bin lo hi n i pm ?hit)))"
    using st(2,3) by (simp add: linspace_length)
  moreover have "length ?acc = n" using st(2) by (simp add: linspace_length)
  ultimately show ?thesis using run a m by auto
qed

lemma reliability_series_eval:
  assumes xl: "default_xlim y xlim = Inr (lo, hi)"
      and a: "argmax_axis1 p_pred = Inr yp" and m: "max_axis1 p_pred = Inr pm"
      and n: "0 < n" and len: "length yp = length y"
      and bs: "binned_statistic pm (hit_indicator yp y) n (lo, hi) = Inr stat"
  shows "reliability_series y p_pred n xlim =
           Inr \<lparr>rs_xlim = (lo, hi), rs_y_pred = yp, rs_p_max = pm,
                rs_bins = linspace lo hi (n + 1),
                rs_bin_means = linspace (lo + hi / (2 * real n)) (hi - hi / (2 * real n)) n,
                rs_empirical_acc =
                  map2 (\<lambda>e m. case e of None \<Rightarrow> m | Some a \<Rightarrow> a) stat
                    (linspace (lo + hi / (2 * real n)) (hi - hi / (2 * real n)) n)\<rparr>"
proof -
  have eq: "np_equal (map int yp) y = Inr (map2 (=) (map int yp) y)"
    using len by (intro np_equal_same_length) simp
  have st1: "binned_statistic pm (map (\<lambda>b. if b then 1 else 0) (map2 (=) (map int yp) y)) n (lo, hi) =
      Inr stat"
    using bs by (simp only: hit_indicator_eq)
  show ?thesis
    unfolding reliability_series_def using xl a m n eq st1
    by (simp add: bind_err_def Let_def)
qed

lemma binned_statistic_length:
  assumes "binned_statistic x vals n rng = Inr stat"
  shows "length stat = n"
  using assms unfolding binned_statistic_def bind_err_def Let_def
  by (auto split: if_splits sum.splits prod.splits simp: bincount_length)

lemma interior_count:
  assumes lh: "lo < hi" and n: "0 < n" and v: "lo < v" "v < hi"
  shows "1 \<le> length (filter (\<lambda>e. e \<le> v) (linspace lo hi (n + 1))) \<and>
         length (filter (\<lambda>e. e \<le> v) (linspace lo hi (n + 1))) \<le> n"
proof -
  let ?es = "linspace lo hi (n + 1)"
  define k where "k = length (filter (\<lambda>e. e \<le> v) ?es)"
  have s: "sorted_wrt (<) ?es" by (rule linspace_strict_mono[OF lh])
  have len: "length ?es = n + 1" by (simp add: linspace_length)
  have ch: "k \<le> length ?es \<and> (\<forall>j < k. ?es ! j \<le> v) \<and> (k < length ?es \<longrightarrow> v < ?es ! k)"
    by (rule count_edges_char[OF s k_def])
  have e0: "?es ! 0 = lo" using edges_nth[OF n, of 0 lo hi] by (simp add: bin_edge_first)
  have en: "?es ! n = hi" using edges_nth[OF n, of n lo hi] bin_edge_last[OF n] by simp
  have "k \<noteq> 0"
  proof
    assume z: "k = 0"
    then have "v < ?es ! 0" using ch unfolding len by simp
    then show False using e0 v(1) by simp
  qed
  moreover have "k \<noteq> n + 1"
  proof
    assume z: "k = n + 1"
    then have "?es ! n \<le> v" using ch by simp
    then show False using en v(2) by simp
  qed
  moreover have "k \<le> n + 1" using ch unfolding len by blast
  ultimately have "1 \<le> k \<and> k \<le> n" by linarith
  then show ?thesis unfolding k_def .
qed

lemma linspace_interior:
  assumes lh: "lo < hi" and m: "2 \<le> m" and v: "v \<in> set (butlast (tl (linspace lo hi m)))"
  shows "lo < v \<and> v < hi"
proof -
  let ?x = "linspace lo hi m"
  have len: "length ?x = m" by (simp add: linspace_length)
  have s: "sorted_wrt (<) ?x" by (rule linspace_strict_mono[OF lh])
  from v obtain j where j: "j < length (butlast (tl ?x))" "v = butlast (tl ?x) ! j"
    by (auto simp: in_set_conv_nth)
  then have jl: "j + 2 < m" using len by simp
  have vj: "v = ?x ! Suc j" using j len by (simp add: nth_butlast nth_tl)
  have x0: "?x ! 0 = lo" using linspace_nth[OF m, of 0 lo hi] m by simp
  have xl: "?x ! (m - 1) = hi" using linspace_last[OF m, of lo hi] len m
    by (metis last_conv_nth length_0_conv not_numeral_le_zero)
  have "?x ! 0 < ?x ! Suc j" using jl len by (intro sorted_wrt_nth_less[OF s]) simp_all
  moreover have "?x ! Suc j < ?x ! (m - 1)" using jl len
    by (intro sorted_wrt_nth_less[OF s]) simp_all
  ultimately show ?thesis using vj x0 xl by simp
qed

lemma shade_total:
  assumes lh: "lo < hi" and n: "0 < n" and la: "length arr = n"
  shows "\<exists>d sh. digitize (linspace lo hi 1000) (linspace lo hi (n + 1)) = Inr d \<and>
           py_take arr (map (\<lambda>k. int k - 1) (butlast (tl d))) = Inr sh"
proof -
  let ?es = "linspace lo hi (n + 1)"
  let ?x = "linspace lo hi 1000"
  let ?c = "\<lambda>v. length (filter (\<lambda>e. e \<le> v) ?es)"
  have srt: "sorted ?es" using lh by (intro linspace_sorted) simp
  have dg: "digitize ?x ?es = Inr (map ?c ?x)" by (rule digitize_sorted[OF srt])
  have idx: "butlast (tl (map ?c ?x)) = map ?c (butlast (tl ?x))"
    by (simp add: map_butlast map_tl)
  have "\<exists>sh. py_take arr (map (\<lambda>k. int k - 1) (map ?c (butlast (tl ?x)))) = Inr sh"
    unfolding py_take_def
  proof (rule map_err_total)
    fix i assume "i \<in> set (map (\<lambda>k. int k - 1) (map ?c (butlast (tl ?x))))"
    then obtain v where v: "v \<in> set (butlast (tl ?x))" and i: "i = int (?c v) - 1" by auto
    from linspace_interior[OF lh _ v] have "lo < v" "v < hi" by simp_all
    from interior_count[OF lh n this] have "1 \<le> ?c v \<and> ?c v \<le> n" .
    then have "0 \<le> i \<and> i < int (length arr)" unfolding i la by linarith
    then show "\<exists>w. py_index arr i = Inr w"
      by (simp add: py_index_def)
  qed
  then show ?thesis using dg idx by auto
qed

lemma reliability_diagram_run:
  assumes s: "reliability_series y p_pred n xlim = Inr s"
      and lh: "fst (rs_xlim s) < snd (rs_xlim s)"
  shows "\<exists>sh hist. histogram (rs_p_max s) (rs_bins s) = Inr hist \<and>
           reliability_diagram y p_pred n xlim =
             Inr \<lparr>series = s, shade = sh, hist_frac = map (\<lambda>c. np_div c (sum_list hist)) hist\<rparr>"
proof -
  let ?lo = "fst (rs_xlim s)" and ?hi = "snd (rs_xlim s)"
  from reliability_series_Inr[OF s] obtain hit stat where
    n: "0 < n" and bins: "rs_bins s = linspace ?lo ?hi (n + 1)"
    and bm: "rs_bin_means s = linspace (?lo + ?hi / (2 * real n)) (?hi - ?hi / (2 * real n)) n"
    and st: "binned_statistic (rs_p_max s) (map (\<lambda>b. if b then 1 else 0) hit) n (rs_xlim s) = Inr stat"
    and acc: "rs_empirical_acc s = map2 (\<lambda>e m. case e of None \<Rightarrow> m | Some a \<Rightarrow> a) stat (rs_bin_means s)"
    by blast
  have lbm: "length (rs_bin_means s) = n" unfolding bm by (simp add: linspace_length)
  have lacc: "length (rs_empirical_acc s) = n"
    unfolding acc using binned_statistic_length[OF st] lbm by simp
  let ?arr = "map2 (\<lambda>m e. m + (e - m)) (rs_bin_means s) (rs_empirical_acc s)"
  have la: "length ?arr = n" using lbm lacc by simp
  from shade_total[OF lh n la] obtain d sh where
    d: "digitize (linspace ?lo ?hi 1000) (linspace ?lo ?hi (n + 1)) = Inr d"
    and sh: "py_take ?arr (map (\<lambda>k. int k - 1) (butlast (tl d))) = Inr sh" by blast
  have srt: "sorted (rs_bins s)" unfolding bins using lh by (intro linspace_sorted) simp
  then obtain hist where h: "histogram (rs_p_max s) (rs_bins s) = Inr hist"
    by (simp add: histogram_def Let_def)
  have "reliability_diagram y p_pred n xlim =
             Inr \<lparr>series = s, shade = sh, hist_frac = map (\<lambda>c. np_div c (sum_list hist)) hist\<rparr>"
    unfolding reliability_diagram_def using s d[folded bins] sh h
    by (simp add: bind_err_def Let_def)
  with h show ?thesis by blast
qed

lemma reliability_diagram_series:
  assumes "reliability_diagram y p_pred n xlim = Inr r"
  shows "reliability_series y p_pred n xlim = Inr (series r)"
  using assms unfolding reliability_diagram_def bind_err_def Let_def
  by (auto split: sum.splits)

lemma in_scipy_bin_unique:
  assumes "lo < hi" "0 < n" "i < n" "j < n" "in_scipy_bin lo hi n i v" "in_scipy_bin lo hi n j v"
  shows "i = j"
  using bin_number_iff[OF assms(1,2,3), of v] bin_number_iff[OF assms(1,2,4), of v] assms(5,6)
  by simp

lemma in_scipy_bin_range:
  assumes "lo < hi" "0 < n" "i < n" "in_scipy_bin lo hi n i v"
  shows "lo \<le> v \<and> (v \<le> hi \<or> rounds_to_upper lo hi n v)"
proof (cases "in_bin lo hi n i v")
  case True
  from in_bin_range[OF assms(1,2,3) True] show ?thesis by simp
next
  case False
  with assms(4) have r: "rounds_to_upper lo hi n v" by (simp add: in_scipy_bin_def)
  then have "hi < v" by (simp add: rounds_to_upper_def)
  with assms(1) r show ?thesis by simp
qed

lemma n_classes_card: "length (np_unique y) = card (set y)"
  by (simp add: np_unique_def length_remdups_card_conv)

lemma default_xlim_given: "default_xlim y (Some (lo, hi)) = Inr (lo, hi)"
  by (simp add: default_xlim_def)

lemma default_xlim_from_labels:
  "y \<noteq> [] \<Longrightarrow> default_xlim y None = Inr (1 / real (card (set y)), 1)"
  by (simp add: default_xlim_def bind_err_def py_recip_def n_classes_card)

lemma edge_decimals_small:
  assumes "1 / 10 ^ Suc k < (hi - lo) / real n" "(hi - lo) / real n \<le> 1 / 10 ^ k"
  shows "edge_decimals lo hi n = int k + 6"
proof -
  define w where "w = (hi - lo) / real n"
  have wpos: "0 < w" using assms(1) unfolding w_def
    by (meson divide_pos_pos less_trans zero_less_numeral zero_less_one zero_less_power)
  have lp: "log 10 (1 / 10 ^ j) = - real j" for j :: nat
  proof -
    have "log 10 (1 / 10 ^ j) = - log 10 (10 ^ j)" by (simp add: log_divide)
    also have "log 10 (10 ^ j) = real j * log 10 10" by (rule log_nat_power) simp
    finally show ?thesis by simp
  qed
  have "log 10 (1 / 10 ^ Suc k) < log 10 w"
    using assms(1) wpos unfolding w_def by (subst log_less_cancel_iff) simp_all
  then have up: "- log 10 w < real (Suc k)" unfolding lp by linarith
  have "log 10 w \<le> log 10 (1 / 10 ^ k)"
    using assms(2) wpos unfolding w_def by (subst log_le_cancel_iff) simp_all
  then have lo': "real k \<le> - log 10 w" unfolding lp by linarith
  have "\<lfloor>- log 10 w\<rfloor> = int k"
    by (rule floor_unique) (use lo' up in simp_all)
  moreover have "0 \<le> - log 10 w" using lo' by (meson of_nat_0_le_iff order_trans)
  ultimately show ?thesis unfolding edge_decimals_def py_int_def w_def by simp
qed

text \<open>
  Claim C1, as amended. For limits \<open>lo < hi\<close> (the caller's, or the default
  \<open>[1 / n_classes, 1]\<close>), at least one bin, one label per probability row and no empty
  row, \<open>reliability_diagram\<close> returns; the predicted labels are the row argmaxes and the
  confidences the row maxima; for every bin that receives a sample, the empirical
  accuracy is the mean of the indicator (predicted label = true label) over exactly the
  samples scipy puts in that bin: those whose confidence is in the bin of the equal-width
  partition and, for the last bin, also those whose confidence is above \<open>hi\<close> and equal
  to \<open>hi\<close> after rounding to \<open>int(-log10(bin width)) + 6\<close> decimals. A confidence below
  \<open>lo\<close>, or above \<open>hi\<close> and not rounding to it, is in no bin, and no confidence is in two
  bins. When no confidence is above \<open>hi\<close>, the samples of a bin are exactly those whose
  confidence is in the bin.
\<close>

theorem binned_accuracy_is_scipy_bin_mean:
  assumes xl: "xlim = Some (lo, hi) \<or>
               (xlim = None \<and> y \<noteq> [] \<and> lo = 1 / real (card (set y)) \<and> hi = 1)"
      and lh: "lo < hi" and n: "0 < n_bins"
      and len: "length y = length p_pred" and rows: "\<forall>row \<in> set p_pred. row \<noteq> []"
  shows "\<exists>r. reliability_diagram y p_pred n_bins xlim = Inr r \<and>
           rs_xlim (series r) = (lo, hi) \<and>
           argmax_axis1 p_pred = Inr (rs_y_pred (series r)) \<and>
           max_axis1 p_pred = Inr (rs_p_max (series r)) \<and>
           (\<forall>i < n_bins.
              samples_in_scipy_bin lo hi n_bins i (rs_p_max (series r))
                 (hit_indicator (rs_y_pred (series r)) y) \<noteq> [] \<longrightarrow>
              rs_empirical_acc (series r) ! i =
                mean (map snd (samples_in_scipy_bin lo hi n_bins i (rs_p_max (series r))
                                 (hit_indicator (rs_y_pred (series r)) y)))) \<and>
           (\<forall>i < n_bins. \<forall>v. in_scipy_bin lo hi n_bins i v \<longrightarrow>
              lo \<le> v \<and> (v \<le> hi \<or> rounds_to_upper lo hi n_bins v)) \<and>
           (\<forall>i < n_bins. \<forall>j < n_bins. \<forall>v.
              in_scipy_bin lo hi n_bins i v \<and> in_scipy_bin lo hi n_bins j v \<longrightarrow> i = j) \<and>
           ((\<forall>v \<in> set (rs_p_max (series r)). v \<le> hi) \<longrightarrow>
              (\<forall>i < n_bins.
                 samples_in_scipy_bin lo hi n_bins i (rs_p_max (series r))
                    (hit_indicator (rs_y_pred (series r)) y) =
                 samples_in_bin lo hi n_bins i (rs_p_max (series r))
                    (hit_indicator (rs_y_pred (series r)) y)))"
proof -
  have dx: "default_xlim y xlim = Inr (lo, hi)"
    using xl default_xlim_given[of y lo hi] default_xlim_from_labels[of y] by auto
  from reliability_series_run[OF dx lh n len rows] obtain s where
    s: "reliability_series y p_pred n_bins xlim = Inr s" and x: "rs_xlim s = (lo, hi)"
    and a: "argmax_axis1 p_pred = Inr (rs_y_pred s)" and m: "max_axis1 p_pred = Inr (rs_p_max s)"
    and acc: "\<forall>i < n_bins. rs_empirical_acc s ! i =
              (if samples_in_scipy_bin lo hi n_bins i (rs_p_max s) (hit_indicator (rs_y_pred s) y) = []
               then rs_bin_means s ! i
               else mean (map snd
                 (samples_in_scipy_bin lo hi n_bins i (rs_p_max s) (hit_indicator (rs_y_pred s) y))))"
    by blast
  have "fst (rs_xlim s) < snd (rs_xlim s)" using x lh by simp
  from reliability_diagram_run[OF s this] obtain r where
    r: "reliability_diagram y p_pred n_bins xlim = Inr r" and sr: "series r = s" by auto
  have rng: "\<forall>i < n_bins. \<forall>v. in_scipy_bin lo hi n_bins i v \<longrightarrow>
              lo \<le> v \<and> (v \<le> hi \<or> rounds_to_upper lo hi n_bins v)"
    using in_scipy_bin_range[OF lh n] by blast
  have uniq: "\<forall>i < n_bins. \<forall>j < n_bins. \<forall>v.
              in_scipy_bin lo hi n_bins i v \<and> in_scipy_bin lo hi n_bins j v \<longrightarrow> i = j"
    using in_scipy_bin_unique[OF lh n] by blast
  have accr: "\<forall>i < n_bins.
              samples_in_scipy_bin lo hi n_bins i (rs_p_max s) (hit_indicator (rs_y_pred s) y) \<noteq> [] \<longrightarrow>
              rs_empirical_acc s ! i =
                mean (map snd (samples_in_scipy_bin lo hi n_bins i (rs_p_max s)
                                 (hit_indicator (rs_y_pred s) y)))"
    using acc by simp
  have same: "(\<forall>v \<in> set (rs_p_max s). v \<le> hi) \<longrightarrow>
              (\<forall>i < n_bins.
                 samples_in_scipy_bin lo hi n_bins i (rs_p_max s) (hit_indicator (rs_y_pred s) y) =
                 samples_in_bin lo hi n_bins i (rs_p_max s) (hit_indicator (rs_y_pred s) y))"
    using samples_in_scipy_bin_below by blast
  show ?thesis
    using r x a m accr rng uniq same unfolding sr[symmetric] by blast
qed

theorem binned_accuracy_is_scipy_bin_mean_witness:
  "(\<exists>r. reliability_diagram [0, 1]
           [[9000001/10000000, 999999/10000000], [3/5, 2/5]] 2 (Some (1/2, 9/10)) = Inr r \<and>
        rs_y_pred (series r) = [0, 0] \<and>
        rs_p_max (series r) = [9000001/10000000, 3/5] \<and>
        hit_indicator (rs_y_pred (series r)) [0, 1] = [1, 0] \<and>
        samples_in_scipy_bin (1/2) (9/10) 2 1 (rs_p_max (series r)) [1, 0] =
           [(9000001/10000000, 1)] \<and>
        rs_empirical_acc (series r) ! 1 = 1) \<and>
   rounds_to_upper (1/2) (9/10) 2 (9000001/10000000)"
proof -
  let ?y = "[0, 1] :: int list"
  let ?p = "[[9000001/10000000, 999999/10000000], [3/5, 2/5]] :: real list list"
  have rows: "\<forall>row \<in> set ?p. row \<noteq> []" by simp
  have a: "argmax_axis1 ?p = Inr [0, 0]" by code_simp
  have m: "max_axis1 ?p = Inr [9000001/10000000, 3/5]" by code_simp
  have d: "edge_decimals (1/2) (9/10) 2 = 6"
    using edge_decimals_small[of 0 "9/10" "1/2" 2] by simp
  have ru: "rounds_to_upper (1/2) (9/10) 2 (9000001/10000000)"
    unfolding rounds_to_upper_def d by (simp add: np_around_def rint_def)
  have nr: "\<not> rounds_to_upper (1/2) (9/10) 2 (3/5)" by (simp add: rounds_to_upper_def)
  from binned_accuracy_is_scipy_bin_mean[of "Some (1/2, 9/10)" "1/2" "9/10" ?y 2 ?p] rows
  obtain r where
    r: "reliability_diagram ?y ?p 2 (Some (1/2, 9/10)) = Inr r"
    and ra: "argmax_axis1 ?p = Inr (rs_y_pred (series r))"
    and rm: "max_axis1 ?p = Inr (rs_p_max (series r))"
    and acc: "\<forall>i < 2.
              samples_in_scipy_bin (1/2) (9/10) 2 i (rs_p_max (series r))
                 (hit_indicator (rs_y_pred (series r)) ?y) \<noteq> [] \<longrightarrow>
              rs_empirical_acc (series r) ! i =
                mean (map snd (samples_in_scipy_bin (1/2) (9/10) 2 i (rs_p_max (series r))
                                 (hit_indicator (rs_y_pred (series r)) ?y)))"
    by auto
  have yp: "rs_y_pred (series r) = [0, 0]" using a ra by simp
  have pm: "rs_p_max (series r) = [9000001/10000000, 3/5]" using m rm by simp
  have hit: "hit_indicator (rs_y_pred (series r)) ?y = [1, 0]"
    unfolding yp by (simp add: hit_indicator_def)
  have sb: "samples_in_scipy_bin (1/2) (9/10) 2 1 (rs_p_max (series r)) [1, 0] =
           [(9000001/10000000, 1)]"
    unfolding pm using ru nr
    by (simp add: samples_in_scipy_bin_def in_scipy_bin_def in_bin_def bin_edge_def)
  have "rs_empirical_acc (series r) ! 1 = mean (map snd [(9000001/10000000, 1 :: real)])"
    using acc[rule_format, of 1] unfolding hit sb by simp
  then have "rs_empirical_acc (series r) ! 1 = 1" by (simp add: mean_def)
  with r yp pm hit sb ru show ?thesis by blast
qed

text \<open>
  Claim C1, as first stated, at confidences 0.9000001 and 0.6 with the limits
  \<open>[0.5, 0.9]\<close> and two bins: the first confidence is above the upper limit and in no
  bin of the partition, yet it is the sample of the last bin, whose accuracy is 1 and not
  the substitute \<open>bin_means[1] = 27/40\<close> of a bin without samples.
\<close>

theorem sample_above_upper_limit_is_binned_counterexample:
  "(\<exists>r. reliability_diagram [0, 1]
           [[9000001/10000000, 999999/10000000], [3/5, 2/5]] 2 (Some (1/2, 9/10)) = Inr r \<and>
        rs_y_pred (series r) = [0, 0] \<and>
        rs_p_max (series r) = [9000001/10000000, 3/5] \<and>
        rs_bin_means (series r) = [29/40, 27/40] \<and>
        rs_empirical_acc (series r) = [0, 1]) \<and>
   samples_in_bin (1/2) (9/10) 2 1 [9000001/10000000, 3/5] (hit_indicator [0, 0] [0, 1]) = [] \<and>
   (9/10 :: real) < 9000001/10000000"
proof -
  let ?y = "[0, 1] :: int list"
  let ?p = "[[9000001/10000000, 999999/10000000], [3/5, 2/5]] :: real list list"
  let ?pm = "[9000001/10000000, 3/5] :: real list"
  let ?s = "\<lparr>rs_xlim = (1/2, 9/10), rs_y_pred = [0, 0], rs_p_max = ?pm,
             rs_bins = [1/2, 7/10, 9/10], rs_bin_means = [29/40, 27/40],
             rs_empirical_acc = [0, 1]\<rparr>"
  have dx: "default_xlim ?y (Some (1/2, 9/10)) = Inr (1/2, 9/10)" by (rule default_xlim_given)
  have a: "argmax_axis1 ?p = Inr [0, 0]" by code_simp
  have m: "max_axis1 ?p = Inr ?pm" by code_simp
  have hit: "hit_indicator [0, 0] ?y = [1, 0]" by (simp add: hit_indicator_def)
  have u: "[0..<(2::nat)] = [0, 1]" by (simp add: upt_rec)
  have d: "edge_decimals (1/2) (9/10) 2 = 6"
    using edge_decimals_small[of 0 "9/10" "1/2" 2] by simp
  have ru: "rounds_to_upper (1/2) (9/10) 2 (9000001/10000000)"
    unfolding rounds_to_upper_def d by (simp add: np_around_def rint_def)
  have nr: "\<not> rounds_to_upper (1/2) (9/10) 2 (3/5)" by (simp add: rounds_to_upper_def)
  have "binned_statistic ?pm [1, 0] 2 (1/2, 9/10) =
      Inr (map (\<lambda>i. if samples_in_scipy_bin (1/2) (9/10) 2 i ?pm [1, 0] = [] then None
                     else Some (mean (map snd (samples_in_scipy_bin (1/2) (9/10) 2 i ?pm [1, 0]))))
             [0..<2])"
    by (rule binned_statistic_eval) simp_all
  also have "\<dots> = Inr [Some 0, Some 1]"
    unfolding u using ru nr
    by (simp add: samples_in_scipy_bin_def in_scipy_bin_def in_bin_def bin_edge_def mean_def)
  finally have bs: "binned_statistic ?pm (hit_indicator [0, 0] ?y) 2 (1/2, 9/10) =
      Inr [Some 0, Some 1]" unfolding hit .
  have l1: "linspace (1/2) (9/10) 3 = [1/2, 7/10, 9/10]" by code_simp
  have l2: "linspace (29/40) (27/40) 2 = [29/40, 27/40]" by code_simp
  have ev: "reliability_series ?y ?p 2 (Some (1/2, 9/10)) = Inr ?s"
    by (subst reliability_series_eval[OF dx a m _ _ bs]) (simp_all add: l1 l2)
  have "fst (rs_xlim ?s) < snd (rs_xlim ?s)" by simp
  from reliability_diagram_run[OF ev this] obtain r where
    r: "reliability_diagram ?y ?p 2 (Some (1/2, 9/10)) = Inr r" and sr: "series r = ?s" by auto
  have sb: "samples_in_bin (1/2) (9/10) 2 1 ?pm (hit_indicator [0, 0] ?y) = []"
    unfolding hit by (simp add: samples_in_bin_def in_bin_def bin_edge_def)
  have "rs_y_pred (series r) = [0, 0]" "rs_p_max (series r) = ?pm"
    "rs_bin_means (series r) = [29/40, 27/40]" "rs_empirical_acc (series r) = [0, 1]"
    unfolding sr by simp_all
  with r sb show ?thesis by simp
qed

lemma series_example_two_bins:
  "reliability_series [0, 1, 0, 0]
       [[9/10, 1/10], [1/5, 4/5], [2/5, 3/5], [3/20, 17/20]] 2 None =
     Inr \<lparr>rs_xlim = (1/2, 1), rs_y_pred = [0, 1, 1, 1], rs_p_max = [9/10, 4/5, 3/5, 17/20],
             rs_bins = [1/2, 3/4, 1], rs_bin_means = [3/4, 3/4],
             rs_empirical_acc = [0, 2/3]\<rparr>"
proof -
  let ?y = "[0, 1, 0, 0] :: int list"
  let ?p = "[[9/10, 1/10], [1/5, 4/5], [2/5, 3/5], [3/20, 17/20]] :: real list list"
  let ?pm = "[9/10, 4/5, 3/5, 17/20] :: real list"
  have dx: "default_xlim ?y None = Inr (1/2, 1)" by code_simp
  have a: "argmax_axis1 ?p = Inr [0, 1, 1, 1]" by code_simp
  have m: "max_axis1 ?p = Inr ?pm" by code_simp
  have hit: "hit_indicator [0, 1, 1, 1] ?y = [1, 1, 0, 0]" by (simp add: hit_indicator_def)
  have u: "[0..<(2::nat)] = [0, 1]" by (simp add: upt_rec)
  have "binned_statistic ?pm [1, 1, 0, 0] 2 (1/2, 1) =
      Inr (map (\<lambda>i. if samples_in_scipy_bin (1/2) 1 2 i ?pm [1, 1, 0, 0] = [] then None
                     else Some (mean (map snd (samples_in_scipy_bin (1/2) 1 2 i ?pm [1, 1, 0, 0]))))
             [0..<2])"
    by (rule binned_statistic_eval) simp_all
  also have "\<dots> = Inr [Some 0, Some (2/3)]"
    unfolding u
    by (simp add: samples_in_scipy_bin_def in_scipy_bin_def rounds_to_upper_def in_bin_def
          bin_edge_def mean_def)
  finally have bs: "binned_statistic ?pm (hit_indicator [0, 1, 1, 1] ?y) 2 (1/2, 1) =
      Inr [Some 0, Some (2/3)]" unfolding hit .
  have l1: "linspace (1/2) 1 3 = [1/2, 3/4, 1]" by code_simp
  have l2: "linspace (3/4) (3/4) 2 = [3/4, 3/4]" by code_simp
  show ?thesis
    by (subst reliability_series_eval[OF dx a m _ _ bs]) (simp_all add: l1 l2)
qed

lemma series_example_four_bins:
  "reliability_series [0, 1, 0, 1]
       [[9/10, 1/10], [1/5, 4/5], [2/5, 3/5], [1/20, 19/20]] 4 None =
     Inr \<lparr>rs_xlim = (1/2, 1), rs_y_pred = [0, 1, 1, 1], rs_p_max = [9/10, 4/5, 3/5, 19/20],
          rs_bins = [1/2, 5/8, 3/4, 7/8, 1], rs_bin_means = [5/8, 17/24, 19/24, 7/8],
          rs_empirical_acc = [0, 17/24, 1, 1]\<rparr>"
proof -
  let ?y = "[0, 1, 0, 1] :: int list"
  let ?p = "[[9/10, 1/10], [1/5, 4/5], [2/5, 3/5], [1/20, 19/20]] :: real list list"
  let ?pm = "[9/10, 4/5, 3/5, 19/20] :: real list"
  have dx: "default_xlim ?y None = Inr (1/2, 1)" by code_simp
  have a: "argmax_axis1 ?p = Inr [0, 1, 1, 1]" by code_simp
  have m: "max_axis1 ?p = Inr ?pm" by code_simp
  have hit: "hit_indicator [0, 1, 1, 1] ?y = [1, 1, 0, 1]" by (simp add: hit_indicator_def)
  have u: "[0..<(4::nat)] = [0, 1, 2, 3]" by (simp add: upt_rec)
  have "binned_statistic ?pm [1, 1, 0, 1] 4 (1/2, 1) =
      Inr (map (\<lambda>i. if samples_in_scipy_bin (1/2) 1 4 i ?pm [1, 1, 0, 1] = [] then None
                     else Some (mean (map snd (samples_in_scipy_bin (1/2) 1 4 i ?pm [1, 1, 0, 1]))))
             [0..<4])"
    by (rule binned_statistic_eval) simp_all
  also have "\<dots> = Inr [Some 0, None, Some 1, Some 1]"
    unfolding u
    by (simp add: samples_in_scipy_bin_def in_scipy_bin_def rounds_to_upper_def in_bin_def
          bin_edge_def mean_def)
  finally have bs: "binned_statistic ?pm (hit_indicator [0, 1, 1, 1] ?y) 4 (1/2, 1) =
      Inr [Some 0, None, Some 1, Some 1]" unfolding hit .
  have l1: "linspace (1/2) 1 5 = [1/2, 5/8, 3/4, 7/8, 1]" by code_simp
  have l2: "linspace (5/8) (7/8) 4 = [5/8, 17/24, 19/24, 7/8]" by code_simp
  show ?thesis
    by (subst reliability_series_eval[OF dx a m _ _ bs]) (simp_all add: l1 l2)
qed

lemma series_example_no_sample_in_range:
  "reliability_series [0, 1, 0, 1]
       [[9/10, 1/10], [1/5, 4/5], [3/5, 2/5], [1/20, 19/20]] 2 (Some (24/25, 1)) =
     Inr \<lparr>rs_xlim = (24/25, 1), rs_y_pred = [0, 1, 0, 1], rs_p_max = [9/10, 4/5, 3/5, 19/20],
          rs_bins = [24/25, 49/50, 1], rs_bin_means = [121/100, 3/4],
          rs_empirical_acc = [121/100, 3/4]\<rparr>"
proof -
  let ?y = "[0, 1, 0, 1] :: int list"
  let ?p = "[[9/10, 1/10], [1/5, 4/5], [3/5, 2/5], [1/20, 19/20]] :: real list list"
  let ?pm = "[9/10, 4/5, 3/5, 19/20] :: real list"
  have dx: "default_xlim ?y (Some (24/25, 1)) = Inr (24/25, 1)" by (rule default_xlim_given)
  have a: "argmax_axis1 ?p = Inr [0, 1, 0, 1]" by code_simp
  have m: "max_axis1 ?p = Inr ?pm" by code_simp
  have hit: "hit_indicator [0, 1, 0, 1] ?y = [1, 1, 1, 1]" by (simp add: hit_indicator_def)
  have u: "[0..<(2::nat)] = [0, 1]" by (simp add: upt_rec)
  have "binned_statistic ?pm [1, 1, 1, 1] 2 (24/25, 1) =
      Inr (map (\<lambda>i. if samples_in_scipy_bin (24/25) 1 2 i ?pm [1, 1, 1, 1] = [] then None
                     else Some (mean (map snd (samples_in_scipy_bin (24/25) 1 2 i ?pm [1, 1, 1, 1]))))
             [0..<2])"
    by (rule binned_statistic_eval) simp_all
  also have "\<dots> = Inr [None, None]"
    unfolding u
    by (simp add: samples_in_scipy_bin_def in_scipy_bin_def rounds_to_upper_def in_bin_def
          bin_edge_def mean_def)
  finally have bs: "binned_statistic ?pm (hit_indicator [0, 1, 0, 1] ?y) 2 (24/25, 1) =
      Inr [None, None]" unfolding hit .
  have l1: "linspace (24/25) 1 3 = [24/25, 49/50, 1]" by code_simp
  have l2: "linspace (121/100) (3/4) 2 = [121/100, 3/4]" by code_simp
  show ?thesis
    by (subst reliability_series_eval[OF dx a m _ _ bs]) (simp_all add: l1 l2)
qed

text \<open>
  Claim C9. \<open>reliability_diagram\<close> has no parameter for predicted labels. Whenever it
  returns, the predicted label of every sample is the argmax of the sample's probability
  row, the confidence is the maximum of the same row, and so the confidence is the
  probability of the predicted class; these recomputed labels and confidences are what
  the binned statistic is computed from.
\<close>

theorem predicted_label_is_row_argmax:
  assumes run: "reliability_diagram y p_pred n_bins xlim = Inr r"
  shows "length (rs_y_pred (series r)) = length p_pred \<and>
         length (rs_p_max (series r)) = length p_pred \<and>
         (\<forall>k < length p_pred.
            np_argmax (p_pred ! k) = Inr (rs_y_pred (series r) ! k) \<and>
            np_max (p_pred ! k) = Inr (rs_p_max (series r) ! k) \<and>
            rs_p_max (series r) ! k = p_pred ! k ! (rs_y_pred (series r) ! k)) \<and>
         (\<exists>hit stat.
            np_equal (map int (rs_y_pred (series r))) y = Inr hit \<and>
            binned_statistic (rs_p_max (series r)) (map (\<lambda>b. if b then 1 else 0) hit) n_bins
               (rs_xlim (series r)) = Inr stat \<and>
            rs_empirical_acc (series r) =
              map2 (\<lambda>e m. case e of None \<Rightarrow> m | Some a \<Rightarrow> a) stat (rs_bin_means (series r)))"
proof -
  from reliability_diagram_series[OF run]
  have s: "reliability_series y p_pred n_bins xlim = Inr (series r)" .
  from reliability_series_Inr[OF s]
  have a: "argmax_axis1 p_pred = Inr (rs_y_pred (series r))"
    and m: "max_axis1 p_pred = Inr (rs_p_max (series r))"
    and b: "\<exists>hit stat.
            np_equal (map int (rs_y_pred (series r))) y = Inr hit \<and>
            binned_statistic (rs_p_max (series r)) (map (\<lambda>b. if b then 1 else 0) hit) n_bins
               (rs_xlim (series r)) = Inr stat \<and>
            rs_empirical_acc (series r) =
              map2 (\<lambda>e m. case e of None \<Rightarrow> m | Some a \<Rightarrow> a) stat (rs_bin_means (series r))"
    by blast+
  from rows_reduced[OF a m] b show ?thesis by simp
qed

theorem predicted_label_is_row_argmax_witness:
  "\<exists>r. reliability_diagram [0, 1, 0, 0]
           [[9/10, 1/10], [1/5, 4/5], [2/5, 3/5], [3/20, 17/20]] 2 None = Inr r \<and>
        rs_y_pred (series r) = [0, 1, 1, 1] \<and>
        rs_p_max (series r) = [9/10, 4/5, 3/5, 17/20] \<and>
        np_argmax [2/5, 3/5] = Inr (rs_y_pred (series r) ! 2) \<and>
        np_max [2/5, 3/5] = Inr (rs_p_max (series r) ! 2) \<and>
        rs_p_max (series r) ! 2 = [2/5, 3/5] ! (rs_y_pred (series r) ! 2)"
proof -
  let ?y = "[0, 1, 0, 0] :: int list"
  let ?p = "[[9/10, 1/10], [1/5, 4/5], [2/5, 3/5], [3/20, 17/20]] :: real list list"
  let ?s = "\<lparr>rs_xlim = (1/2, 1), rs_y_pred = [0, 1, 1, 1], rs_p_max = [9/10, 4/5, 3/5, 17/20],
             rs_bins = [1/2, 3/4, 1], rs_bin_means = [3/4, 3/4],
             rs_empirical_acc = [0, 2/3]\<rparr>"
  have ev: "reliability_series ?y ?p 2 None = Inr ?s" by (rule series_example_two_bins)
  have "fst (rs_xlim ?s) < snd (rs_xlim ?s)" by simp
  from reliability_diagram_run[OF ev this] obtain r where
    r: "reliability_diagram ?y ?p 2 None = Inr r" and sr: "series r = ?s" by auto
  from predicted_label_is_row_argmax[OF r]
  have "\<forall>k < length ?p.
            np_argmax (?p ! k) = Inr (rs_y_pred (series r) ! k) \<and>
            np_max (?p ! k) = Inr (rs_p_max (series r) ! k) \<and>
            rs_p_max (series r) ! k = ?p ! k ! (rs_y_pred (series r) ! k)" by blast
  from this[rule_format, of 2]
  have "np_argmax [2/5, 3/5] = Inr (rs_y_pred (series r) ! 2) \<and>
        np_max [2/5, 3/5] = Inr (rs_p_max (series r) ! 2) \<and>
        rs_p_max (series r) ! 2 = [2/5, 3/5] ! (rs_y_pred (series r) ! 2)" by simp
  moreover have "rs_y_pred (series r) = [0, 1, 1, 1]" "rs_p_max (series r) = [9/10, 4/5, 3/5, 17/20]"
    unfolding sr by simp_all
  ultimately show ?thesis using r by blast
qed

lemma confidence_diagram_Inr:
  assumes "confidence_diagram y y_pred p_pred n_classes n_bins = Inr r"
  shows "cd_n_classes r = (case n_classes of None \<Rightarrow> length (np_unique y) | Some c \<Rightarrow> c) \<and>
         cd_n_classes r \<noteq> 0 \<and>
         cd_range r = (1 / real (cd_n_classes r), 1) \<and>
         cd_bins r = linspace 0 1 (n_bins + 1)"
  using assms unfolding confidence_diagram_def bind_err_def Let_def py_recip_def
  by (auto split: sum.splits if_splits)

lemma confidence_trajectories_Inr:
  assumes "confidence_trajectories y y_pred p_pred n_classes n = Inr r"
  shows "traj_n_classes r = (case n_classes of None \<Rightarrow> length (np_unique y) | Some c \<Rightarrow> c) \<and>
         traj_n_classes r \<noteq> 0 \<and>
         traj_thresholds r = linspace (1 / real (traj_n_classes r)) 1 n"
  using assms unfolding confidence_trajectories_def bind_err_def Let_def py_recip_def
  by (auto split: sum.splits if_splits prod.splits)

lemma default_xlim_None:
  assumes "default_xlim y None = Inr xl"
  shows "xl = (1 / real (card (set y)), 1) \<and> card (set y) \<noteq> 0"
  using assms unfolding default_xlim_def bind_err_def py_recip_def n_classes_card
  by (auto split: if_splits)

lemma over_underconfidence_curve_Inr:
  assumes "over_underconfidence_curve y y_pred p_pred n_bins = Inr r"
  shows "ouc_bins r = linspace 0 1 n_bins"
  using assms unfolding over_underconfidence_curve_def bind_err_def Let_def
  by (auto split: sum.splits)

lemma reliability_diagram_edges:
  assumes "reliability_diagram y p_pred n_bins xlim = Inr r"
      and "fst (rs_xlim (series r)) < snd (rs_xlim (series r))"
  shows "length (rs_bins (series r)) = n_bins + 1 \<and> sorted_wrt (<) (rs_bins (series r))"
  using reliability_series_Inr[OF reliability_diagram_series[OF assms(1)]]
        linspace_strict_mono[OF assms(2)]
  by (simp add: linspace_length)

lemma confidence_diagram_edges:
  assumes "confidence_diagram y y_pred p_pred n_classes n_bins = Inr r"
  shows "length (cd_bins r) = n_bins + 1 \<and> sorted_wrt (<) (cd_bins r)"
  using confidence_diagram_Inr[OF assms] linspace_strict_mono[of 0 1 "n_bins + 1"]
  by (simp add: linspace_length)

lemma over_underconfidence_edges:
  assumes "over_underconfidence_curve y y_pred p_pred n_bins = Inr r"
  shows "length (ouc_bins r) = n_bins \<and> sorted_wrt (<) (ouc_bins r)"
  using over_underconfidence_curve_Inr[OF assms] linspace_strict_mono[of 0 1 n_bins]
  by (simp add: linspace_length)

lemma bin_means_offset:
  assumes n: "2 \<le> n" and i: "i < n"
  shows "linspace (lo + hi / (2 * real n)) (hi - hi / (2 * real n)) n ! i - bin_midpoint lo hi n i =
         lo * (real n - 1 - 2 * real i) / (2 * real n * (real n - 1))"
proof -
  have n1: "real (n - 1) = real n - 1" using n by simp
  have p: "real n \<noteq> 0" "real n - 1 \<noteq> 0" using n by simp_all
  show ?thesis
    unfolding linspace_nth[OF n i] bin_midpoint_def n1
    using p by (simp add: field_simps)
qed

lemma bin_means_are_midpoints_from_zero:
  assumes n: "0 < n" and i: "i < n"
  shows "linspace (0 + hi / (2 * real n)) (hi - hi / (2 * real n)) n ! i = bin_midpoint 0 hi n i"
proof (cases "2 \<le> n")
  case True
  from bin_means_offset[OF True i, of 0 hi] show ?thesis by simp
next
  case False
  with n i have "n = 1" "i = 0" by simp_all
  then show ?thesis by (simp add: linspace_def bin_midpoint_def)
qed

text \<open>
  Claim C7. With no axis limits given, \<open>reliability_diagram\<close> uses the limits
  \<open>[1 / n_classes, 1]\<close>; with no class count given, \<open>confidence_diagram\<close> and
  \<open>confidence_trajectories\<close> use \<open>n_classes\<close> and the floor \<open>1 / n_classes\<close> (as the lower
  end of the histogram range, and as the first point of the threshold grid); in all
  three \<open>n_classes\<close> is the number of distinct labels occurring in \<open>y\<close>.
\<close>

theorem default_confidence_floor:
  "(\<forall>r. reliability_diagram y p_pred n_bins None = Inr r \<longrightarrow>
        rs_xlim (series r) = (1 / real (card (set y)), 1)) \<and>
   (\<forall>r. confidence_diagram y y_pred p_pred None n_bins = Inr r \<longrightarrow>
        cd_n_classes r = card (set y) \<and> cd_range r = (1 / real (card (set y)), 1)) \<and>
   (\<forall>r. confidence_trajectories y y_pred p_pred None n_thresh_steps = Inr r \<longrightarrow>
        traj_n_classes r = card (set y) \<and>
        traj_thresholds r = linspace (1 / real (card (set y))) 1 n_thresh_steps)"
proof (intro conjI allI impI)
  fix r assume "reliability_diagram y p_pred n_bins None = Inr r"
  from reliability_series_Inr[OF reliability_diagram_series[OF this]]
  have "default_xlim y None = Inr (rs_xlim (series r))" by blast
  from default_xlim_None[OF this] show "rs_xlim (series r) = (1 / real (card (set y)), 1)" by simp
next
  fix r assume a: "confidence_diagram y y_pred p_pred None n_bins = Inr r"
  from confidence_diagram_Inr[OF a] show "cd_n_classes r = card (set y)"
    by (simp add: n_classes_card)
  from confidence_diagram_Inr[OF a] show "cd_range r = (1 / real (card (set y)), 1)"
    by (simp add: n_classes_card)
next
  fix r assume a: "confidence_trajectories y y_pred p_pred None n_thresh_steps = Inr r"
  from confidence_trajectories_Inr[OF a] show "traj_n_classes r = card (set y)"
    by (simp add: n_classes_card)
  from confidence_trajectories_Inr[OF a]
  show "traj_thresholds r = linspace (1 / real (card (set y))) 1 n_thresh_steps"
    by (simp add: n_classes_card)
qed

theorem default_confidence_floor_witness:
  "card (set [0, 1, 0, 0 :: int]) = 2 \<and>
   (\<exists>r. reliability_diagram [0, 1, 0, 0]
           [[9/10, 1/10], [1/5, 4/5], [2/5, 3/5], [3/20, 17/20]] 2 None = Inr r \<and>
        rs_xlim (series r) = (1/2, 1)) \<and>
   confidence_diagram [0, 1, 0, 0] [0, 1, 1, 1]
       [[9/10, 1/10], [1/5, 4/5], [2/5, 3/5], [3/20, 17/20]] None 2 =
     Inr \<lparr>cd_n_classes = 2, cd_bins = [0, 1/2, 1], cd_range = (1/2, 1),
          cd_conf_false = [3/5, 17/20], cd_conf_correct = [9/10, 4/5]\<rparr> \<and>
   confidence_trajectories [0, 1, 0, 0] [0, 1, 1, 1]
       [[9/10, 1/10], [1/5, 4/5], [2/5, 3/5], [3/20, 17/20]] None 3 =
     Inr \<lparr>traj_n_classes = 2, traj_thresholds = [1/2, 3/4, 1],
          avg_conf_correct = [4/5, 4/5, 17/20], avg_conf_false = [3/5, 3/5, 29/40]\<rparr>"
proof -
  let ?y = "[0, 1, 0, 0] :: int list" and ?yp = "[0, 1, 1, 1] :: int list"
  let ?p = "[[9/10, 1/10], [1/5, 4/5], [2/5, 3/5], [3/20, 17/20]] :: real list list"
  let ?s = "\<lparr>rs_xlim = (1/2, 1), rs_y_pred = [0, 1, 1, 1], rs_p_max = [9/10, 4/5, 3/5, 17/20],
             rs_bins = [1/2, 3/4, 1], rs_bin_means = [3/4, 3/4],
             rs_empirical_acc = [0, 2/3]\<rparr>"
  have c: "card (set ?y) = 2" by code_simp
  have ev: "reliability_series ?y ?p 2 None = Inr ?s" by (rule series_example_two_bins)
  have "fst (rs_xlim ?s) < snd (rs_xlim ?s)" by simp
  from reliability_diagram_run[OF ev this] obtain r where
    r: "reliability_diagram ?y ?p 2 None = Inr r" by auto
  have cd: "confidence_diagram ?y ?yp ?p None 2 =
     Inr \<lparr>cd_n_classes = 2, cd_bins = [0, 1/2, 1], cd_range = (1/2, 1),
          cd_conf_false = [3/5, 17/20], cd_conf_correct = [9/10, 4/5]\<rparr>" by code_simp
  have ct: "confidence_trajectories ?y ?yp ?p None 3 =
     Inr \<lparr>traj_n_classes = 2, traj_thresholds = [1/2, 3/4, 1],
          avg_conf_correct = [4/5, 4/5, 17/20], avg_conf_false = [3/5, 3/5, 29/40]\<rparr>"
    by code_simp
  from default_confidence_floor[of ?y ?p 2 ?yp 3] r
  have "rs_xlim (series r) = (1 / real (card (set ?y)), 1)" by blast
  then have "rs_xlim (series r) = (1/2, 1)" unfolding c by simp
  with c r cd ct show ?thesis by blast
qed

text \<open>
  Claim C2. With the labels 0, 1, 0, 1, the confidences 0.9, 0.8, 0.6, 0.95, four bins
  and the default limits \<open>[1/2, 1]\<close>, the bin \<open>[0.625, 0.75)\<close> holds no sample. The value
  substituted for its accuracy is \<open>bin_means[1] = 17/24\<close>, while the midpoint of the bin
  is 11/16: \<open>bin_means\<close> runs from \<open>xlim[0] + xlim[1] / (2 * n_bins)\<close> to
  \<open>xlim[1] - xlim[1] / (2 * n_bins)\<close>, which are the outer midpoints only when
  \<open>xlim[0] = 0\<close> (lemmas \<open>bin_means_offset\<close> and \<open>bin_means_are_midpoints_from_zero\<close>).
\<close>

theorem empty_bin_substitute_differs_from_midpoint:
  "reliability_series [0, 1, 0, 1]
       [[9/10, 1/10], [1/5, 4/5], [2/5, 3/5], [1/20, 19/20]] 4 None =
     Inr \<lparr>rs_xlim = (1/2, 1), rs_y_pred = [0, 1, 1, 1], rs_p_max = [9/10, 4/5, 3/5, 19/20],
          rs_bins = [1/2, 5/8, 3/4, 7/8, 1], rs_bin_means = [5/8, 17/24, 19/24, 7/8],
          rs_empirical_acc = [0, 17/24, 1, 1]\<rparr> \<and>
   map_sum id (rs_empirical_acc \<circ> series)
     (reliability_diagram [0, 1, 0, 1]
        [[9/10, 1/10], [1/5, 4/5], [2/5, 3/5], [1/20, 19/20]] 4 None) = Inr [0, 17/24, 1, 1] \<and>
   samples_in_bin (1/2) 1 4 1 [9/10, 4/5, 3/5, 19/20] (hit_indicator [0, 1, 1, 1] [0, 1, 0, 1]) = [] \<and>
   bin_midpoint (1/2) 1 4 1 = 11/16 \<and>
   [0, 17/24, 1, 1 :: real] ! 1 \<noteq> bin_midpoint (1/2) 1 4 1"
proof -
  let ?y = "[0, 1, 0, 1] :: int list"
  let ?p = "[[9/10, 1/10], [1/5, 4/5], [2/5, 3/5], [1/20, 19/20]] :: real list list"
  let ?s = "\<lparr>rs_xlim = (1/2, 1), rs_y_pred = [0, 1, 1, 1], rs_p_max = [9/10, 4/5, 3/5, 19/20],
          rs_bins = [1/2, 5/8, 3/4, 7/8, 1], rs_bin_means = [5/8, 17/24, 19/24, 7/8],
          rs_empirical_acc = [0, 17/24, 1, 1]\<rparr>"
  have ev: "reliability_series ?y ?p 4 None = Inr ?s" by (rule series_example_four_bins)
  have "fst (rs_xlim ?s) < snd (rs_xlim ?s)" by simp
  from reliability_diagram_run[OF ev this] obtain r where
    r: "reliability_diagram ?y ?p 4 None = Inr r" and sr: "series r = ?s" by auto
  have full: "map_sum id (rs_empirical_acc \<circ> series) (reliability_diagram ?y ?p 4 None) =
      Inr [0, 17/24, 1, 1]"
    unfolding r by (simp add: sr)
  have sb: "samples_in_bin (1/2) 1 4 1 [9/10, 4/5, 3/5, 19/20]
              (hit_indicator [0, 1, 1, 1] ?y) = []"
    by (simp add: samples_in_bin_def in_bin_def bin_edge_def hit_indicator_def)
  have mid: "bin_midpoint (1/2) 1 4 1 = 11/16" by (simp add: bin_midpoint_def)
  have ne: "[0, 17/24, 1, 1 :: real] ! 1 \<noteq> bin_midpoint (1/2) 1 4 1" unfolding mid by simp
  from ev full sb mid ne show ?thesis by blast
qed

text \<open>
  Claim C3. For \<open>n_bins = 3\<close> the edges of \<open>over_underconfidence_curve\<close> are 0, 1/2, 1:
  three edges, not four. The edges of \<open>reliability_diagram\<close> and \<open>confidence_diagram\<close>
  are \<open>n_bins + 1\<close> strictly increasing values, those of \<open>over_underconfidence_curve\<close> are
  \<open>n_bins\<close> strictly increasing values (lemmas \<open>reliability_diagram_edges\<close>,
  \<open>confidence_diagram_edges\<close> and \<open>over_underconfidence_edges\<close>).
\<close>

theorem over_underconfidence_edges_one_short:
  "over_underconfidence_curve [0, 1, 0, 1] [0, 1, 1, 1]
       [[9/10, 1/10], [1/5, 4/5], [2/5, 3/5], [1/20, 19/20]] 3 =
     Inr \<lparr>ouc_bins = [0, 1/2, 1], conf_false_cum = [Fin 0, Fin 1],
          conf_correct_cum = [Fin 0, Fin 1]\<rparr> \<and>
   length [0, 1/2, 1 :: real] = 3 \<and> length [0, 1/2, 1 :: real] \<noteq> 3 + 1"
proof -
  have "over_underconfidence_curve [0, 1, 0, 1] [0, 1, 1, 1]
       [[9/10, 1/10], [1/5, 4/5], [2/5, 3/5], [1/20, 19/20]] 3 =
     Inr \<lparr>ouc_bins = [0, 1/2, 1], conf_false_cum = [Fin 0, Fin 1],
          conf_correct_cum = [Fin 0, Fin 1]\<rparr>" by code_simp
  then show ?thesis by simp
qed

text \<open>
  Claim C6. When every prediction is correct, the histogram of the false confidences
  sums to 0, \<open>over_underconfidence_curve\<close> returns, and its cumulative curve of the false
  confidences consists of NaN. When no confidence lies within the axis limits,
  \<open>reliability_diagram\<close> returns and its normalised histogram consists of NaN.
\<close>

theorem zero_count_division_gives_nan:
  "over_underconfidence_curve [0, 1, 0, 1] [0, 1, 0, 1]
       [[9/10, 1/10], [1/5, 4/5], [3/5, 2/5], [1/20, 19/20]] 3 =
     Inr \<lparr>ouc_bins = [0, 1/2, 1], conf_false_cum = [NaN, NaN],
          conf_correct_cum = [Fin 0, Fin 1]\<rparr> \<and>
   map_sum id hist_frac
     (reliability_diagram [0, 1, 0, 1]
        [[9/10, 1/10], [1/5, 4/5], [3/5, 2/5], [1/20, 19/20]] 2 (Some (24/25, 1))) =
     Inr [NaN, NaN]"
proof -
  let ?y = "[0, 1, 0, 1] :: int list"
  let ?p = "[[9/10, 1/10], [1/5, 4/5], [3/5, 2/5], [1/20, 19/20]] :: real list list"
  let ?s = "\<lparr>rs_xlim = (24/25, 1), rs_y_pred = [0, 1, 0, 1], rs_p_max = [9/10, 4/5, 3/5, 19/20],
          rs_bins = [24/25, 49/50, 1], rs_bin_means = [121/100, 3/4],
          rs_empirical_acc = [121/100, 3/4]\<rparr>"
  have ouc: "over_underconfidence_curve ?y ?y ?p 3 =
     Inr \<lparr>ouc_bins = [0, 1/2, 1], conf_false_cum = [NaN, NaN],
          conf_correct_cum = [Fin 0, Fin 1]\<rparr>" by code_simp
  have ev: "reliability_series ?y ?p 2 (Some (24/25, 1)) = Inr ?s"
    by (rule series_example_no_sample_in_range)
  have "fst (rs_xlim ?s) < snd (rs_xlim ?s)" by simp
  from reliability_diagram_run[OF ev this] obtain sh hist where
    h: "histogram (rs_p_max ?s) (rs_bins ?s) = Inr hist"
    and r: "reliability_diagram ?y ?p 2 (Some (24/25, 1)) =
             Inr \<lparr>series = ?s, shade = sh, hist_frac = map (\<lambda>c. np_div c (sum_list hist)) hist\<rparr>"
    by blast
  have "histogram [9/10, 4/5, 3/5, 19/20] [24/25, 49/50, 1] = Inr [0, 0]" by code_simp
  with h have hist: "hist = [0, 0]" by simp
  have "map_sum id hist_frac (reliability_diagram ?y ?p 2 (Some (24/25, 1))) = Inr [NaN, NaN]"
    unfolding r hist by (simp add: np_div_def)
  with ouc show ?thesis by blast
qed

section \<open>Properties of over\_underconfidence\_curve\<close>

lemma np_diff_Nil: "np_diff [] = []"
  by (simp add: np_diff_def)

lemma np_diff_single: "np_diff [c] = []"
  by (simp add: np_diff_def)

lemma np_diff_Cons2: "np_diff (a # b # cs) = (b - a) # np_diff (b # cs)"
  by (simp add: np_diff_def)

lemma cumsum_from_np_diff:
  "cumsum_from acc (np_diff ((c0 :: int) # cs)) = map (\<lambda>c. acc + c - c0) cs"
proof (induction cs arbitrary: c0 acc)
  case Nil
  then show ?case by (simp add: np_diff_single)
next
  case (Cons c1 cs)
  show ?case
    unfolding np_diff_Cons2 cumsum_from.simps Cons.IH by simp
qed

lemma cumsum_np_diff: "cumsum (np_diff ((c0 :: int) # cs)) = map (\<lambda>c. c - c0) cs"
  by (simp add: cumsum_def cumsum_from_np_diff)

lemma sum_list_np_diff: "sum_list (np_diff ((c0 :: int) # cs)) = last (c0 # cs) - c0"
proof (induction cs arbitrary: c0)
  case Nil
  then show ?case by (simp add: np_diff_single)
next
  case (Cons c1 cs)
  show ?case
    unfolding np_diff_Cons2 using Cons.IH[of c1] by simp
qed

lemma count_filter_mono:
  assumes "\<And>v. P v \<Longrightarrow> Q v"
  shows "length (filter P a) \<le> length (filter Q a)"
  using assms by (induction a) auto

lemma drop_to_last: "xs \<noteq> [] \<Longrightarrow> drop (length xs - 1) xs = [last xs]"
  by (induction xs) (auto simp: drop_Cons')

lemma sorted_le_last:
  assumes "sorted (xs::real list)" "x \<in> set xs"
  shows "x \<le> last xs"
proof -
  from assms(2) obtain i where i: "i < length xs" "x = xs ! i" by (auto simp: in_set_conv_nth)
  then have ne: "xs \<noteq> []" by auto
  have "xs ! i \<le> xs ! (length xs - 1)" using i(1) by (intro sorted_nth_mono[OF assms(1)]) simp_all
  then show ?thesis using i(2) ne by (simp add: last_conv_nth)
qed

lemma histogram_cumulative:
  assumes srt: "sorted bins" and b: "bins = e0 # rest" "rest \<noteq> []"
  shows "\<exists>hist cs. histogram a bins = Inr hist \<and>
           cs = map (\<lambda>e. int (length (filter (\<lambda>v. v < e) a))) (butlast rest) @
                [int (length (filter (\<lambda>v. v \<le> last rest) a))] \<and>
           cumsum hist = map (\<lambda>c. c - int (length (filter (\<lambda>v. v < e0) a))) cs \<and>
           sum_list hist = int (length (filter (\<lambda>v. v \<le> last rest) a)) -
                           int (length (filter (\<lambda>v. v < e0) a)) \<and>
           sorted cs"
proof -
  define f where "f = (\<lambda>e. int (length (filter (\<lambda>v. v < e) a)))"
  define g where "g = (\<lambda>e. int (length (filter (\<lambda>v. v \<le> e) a)))"
  define cs where "cs = map f (butlast rest) @ [g (last rest)]"
  have bl: "butlast bins = e0 # butlast rest" using b by simp
  have "drop (length bins - 1) bins = drop (length rest - 1) rest"
    using b by (simp add: drop_Cons')
  then have dl: "drop (length bins - 1) bins = [last rest]"
    using drop_to_last[OF b(2)] by simp
  have cum: "map f (butlast bins) @ map g (drop (length bins - 1) bins) = f e0 # cs"
    unfolding bl dl cs_def by simp
  have h: "histogram a bins = Inr (np_diff (f e0 # cs))"
    unfolding histogram_def Let_def using srt cum[unfolded f_def g_def] by (simp add: f_def)
  have lastcs: "last (f e0 # cs) = g (last rest)" unfolding cs_def by simp
  have sr: "sorted rest" using srt b by simp
  have fm: "\<And>x y. x \<le> y \<Longrightarrow> f x \<le> f y"
  proof -
    fix x y :: real assume "x \<le> y"
    then have "length (filter (\<lambda>v. v < x) a) \<le> length (filter (\<lambda>v. v < y) a)"
      by (intro count_filter_mono) simp
    then show "f x \<le> f y" unfolding f_def by simp
  qed
  have s1: "sorted (map f (butlast rest))"
  proof -
    have sb: "sorted (butlast rest)" using sr by (simp add: sorted_butlast b(2))
    show ?thesis unfolding sorted_map
      by (rule sorted_wrt_mono_rel[OF _ sb]) (rule fm)
  qed
  have s2: "\<forall>x \<in> set (map f (butlast rest)). x \<le> g (last rest)"
  proof
    fix x assume "x \<in> set (map f (butlast rest))"
    then obtain e where e: "e \<in> set (butlast rest)" "x = f e" by auto
    have "e \<in> set rest" using e(1) by (rule in_set_butlastD)
    then have "e \<le> last rest" by (rule sorted_le_last[OF sr])
    then have "length (filter (\<lambda>v. v < e) a) \<le> length (filter (\<lambda>v. v \<le> last rest) a)"
      by (intro count_filter_mono) simp
    then show "x \<le> g (last rest)" unfolding e(2) f_def g_def by simp
  qed
  have scs: "sorted cs" unfolding cs_def using s1 s2 by (simp add: sorted_append)
  have c1: "cumsum (np_diff (f e0 # cs)) = map (\<lambda>c. c - f e0) cs" by (rule cumsum_np_diff)
  have c2: "sum_list (np_diff (f e0 # cs)) = g (last rest) - f e0"
    using sum_list_np_diff[of "f e0" cs] lastcs by simp
  show ?thesis
    apply (rule exI[of _ "np_diff (f e0 # cs)"])
    apply (rule exI[of _ cs])
    using h c1 c2 scs unfolding cs_def f_def g_def by blast
qed

lemma linspace_unit_split:
  assumes "2 \<le> m"
  shows "\<exists>rest. linspace 0 1 m = 0 # rest \<and> rest \<noteq> [] \<and> last rest = 1 \<and> length rest = m - 1"
proof -
  have u: "[0..<m - 1] = 0 # [1..<m - 1]" using assms by (simp add: upt_conv_Cons)
  let ?rest = "map (\<lambda>i. 0 + real i * ((1 - 0) / real (m - 1))) [1..<m - 1] @ [1]"
  have "linspace 0 1 m = 0 # ?rest" using assms unfolding linspace_def u by simp
  moreover have "length ?rest = m - 1" using assms by simp
  ultimately show ?thesis by (intro exI[of _ ?rest]) simp
qed

lemma cumulative_curve:
  assumes m: "2 \<le> m" and ne: "a \<noteq> []" and rng: "\<forall>v \<in> set a. 0 \<le> v \<and> v \<le> 1"
  shows "\<exists>hist vs. histogram a (linspace 0 1 m) = Inr hist \<and>
           map (\<lambda>c. np_div c (sum_list hist)) (cumsum hist) = map Fin vs \<and>
           length vs = m - 1 \<and> sorted vs \<and> last vs = 1"
proof -
  from linspace_unit_split[OF m] obtain rest where
    b: "linspace 0 1 m = 0 # rest" "rest \<noteq> []" and lr: "last rest = 1" and len: "length rest = m - 1"
    by blast
  have srt: "sorted (linspace 0 1 m)" by (rule linspace_sorted) simp
  from histogram_cumulative[OF srt b, of a] obtain hist cs where
    h: "histogram a (linspace 0 1 m) = Inr hist"
    and cs: "cs = map (\<lambda>e. int (length (filter (\<lambda>v. v < e) a))) (butlast rest) @
                [int (length (filter (\<lambda>v. v \<le> last rest) a))]"
    and cum: "cumsum hist = map (\<lambda>c. c - int (length (filter (\<lambda>v. v < 0) a))) cs"
    and tot: "sum_list hist = int (length (filter (\<lambda>v. v \<le> last rest) a)) -
                           int (length (filter (\<lambda>v. v < 0) a))"
    and scs: "sorted cs" by blast
  have below: "filter (\<lambda>v. v < 0) a = []" using rng by (auto simp: filter_empty_conv)
  have all: "filter (\<lambda>v. v \<le> 1) a = a" using rng by (auto simp: filter_id_conv)
  have tot': "sum_list hist = int (length a)" using tot below all lr by simp
  have cum': "cumsum hist = cs" using cum below by simp
  have "length (butlast rest) + 1 = length rest" using b(2) by simp
  then have lcs: "length cs = m - 1" unfolding cs using len by simp
  have csne: "cs \<noteq> []" unfolding cs by simp
  have lastcs: "last cs = int (length a)" unfolding cs using all lr by simp
  have pos: "0 < length a" using ne by simp
  define vs where "vs = map (\<lambda>c. real_of_int c / real (length a)) cs"
  have curve: "map (\<lambda>c. np_div c (sum_list hist)) (cumsum hist) = map Fin vs"
    unfolding tot' cum' vs_def using pos by (simp add: np_div_def)
  have lvs: "length vs = m - 1" unfolding vs_def using lcs by simp
  have svs: "sorted vs"
    unfolding vs_def sorted_map
    by (rule sorted_wrt_mono_rel[OF _ scs]) (simp add: divide_right_mono)
  have "last vs = real_of_int (last cs) / real (length a)"
    unfolding vs_def using csne by (simp add: last_map)
  then have "last vs = 1" using lastcs pos by simp
  with h curve lvs svs show ?thesis by blast
qed

lemma mask_select_props:
  assumes "length m = length a"
  shows "\<exists>sel. mask_select a m = Inr sel \<and> set sel \<subseteq> set a \<and>
           ((\<exists>k < length a. m ! k) \<longrightarrow> sel \<noteq> [])"
proof -
  let ?sel = "map fst (filter snd (zip a m))"
  have run: "mask_select a m = Inr ?sel" using assms by (simp add: mask_select_def)
  have sub: "set ?sel \<subseteq> set a" by (auto dest: set_zip_leftD)
  have ne: "(\<exists>k < length a. m ! k) \<longrightarrow> ?sel \<noteq> []"
  proof
    assume "\<exists>k < length a. m ! k"
    then obtain k where k: "k < length a" "m ! k" by blast
    then have "(a ! k, m ! k) \<in> set (zip a m)" using assms
      by (metis in_set_zip fst_conv snd_conv)
    then have "(a ! k, m ! k) \<in> set (filter snd (zip a m))" using k(2) by simp
    then have "filter snd (zip a m) \<noteq> []" by (metis empty_iff empty_set)
    then show "?sel \<noteq> []" by simp
  qed
  from run sub ne show ?thesis by blast
qed

lemma fin_curve_props:
  assumes "sorted vs" "last vs = 1" "0 < length vs"
  shows "nondecreasing (map Fin vs) \<and> final_is_one (map Fin vs)"
proof -
  have "sorted_wrt fval_le (map Fin vs)" using assms(1) by (simp add: sorted_wrt_map)
  moreover have "vs \<noteq> []" using assms(3) by auto
  ultimately show ?thesis using assms(2) by (simp add: nondecreasing_def final_is_one_def last_map)
qed

lemma cumulative_curves_from_two_edges:
  assumes n: "2 \<le> n_bins"
      and pm: "max_axis1 p_pred = Inr p_max"
      and rng: "\<forall>v \<in> set p_max. 0 \<le> v \<and> v \<le> 1"
      and len: "length y_pred = length y" "length p_pred = length y"
      and ok: "\<exists>k < length y. y ! k = y_pred ! k"
      and bad: "\<exists>k < length y. y ! k \<noteq> y_pred ! k"
  shows "\<exists>r. over_underconfidence_curve y y_pred p_pred n_bins = Inr r \<and>
           length (conf_false_cum r) = n_bins - 1 \<and>
           nondecreasing (conf_false_cum r) \<and> final_is_one (conf_false_cum r) \<and>
           length (conf_correct_cum r) = n_bins - 1 \<and>
           nondecreasing (conf_correct_cum r) \<and> final_is_one (conf_correct_cum r)"
proof -
  let ?pc = "map2 (=) y y_pred"
  have eq: "np_equal y y_pred = Inr ?pc" using len(1) by (simp add: np_equal_def)
  have lpm: "length p_max = length y"
    using pm len(2) by (simp add: max_axis1_def map_err_Inr_iff)
  have lpc: "length ?pc = length p_max" using len(1) lpm by simp
  have pck: "\<And>k. k < length y \<Longrightarrow> ?pc ! k = (y ! k = y_pred ! k)" using len(1) by simp
  from mask_select_props[OF lpc] obtain cc where
    cc: "mask_select p_max ?pc = Inr cc" "set cc \<subseteq> set p_max"
        "(\<exists>k < length p_max. ?pc ! k) \<longrightarrow> cc \<noteq> []" by blast
  have lnpc: "length (map Not ?pc) = length p_max" using lpc by simp
  from mask_select_props[OF lnpc] obtain cf where
    cf: "mask_select p_max (map Not ?pc) = Inr cf" "set cf \<subseteq> set p_max"
        "(\<exists>k < length p_max. map Not ?pc ! k) \<longrightarrow> cf \<noteq> []" by blast
  have ccne: "cc \<noteq> []" using cc(3) ok pck lpm by auto
  have "\<exists>k < length p_max. map Not ?pc ! k"
  proof -
    from bad obtain k where k: "k < length y" "y ! k \<noteq> y_pred ! k" by blast
    then have "map Not ?pc ! k" using len(1) by simp
    then show ?thesis using k(1) lpm by auto
  qed
  then have cfne: "cf \<noteq> []" using cf(3) by blast
  have rc: "\<forall>v \<in> set cc. 0 \<le> v \<and> v \<le> 1" using cc(2) rng by blast
  have rf: "\<forall>v \<in> set cf. 0 \<le> v \<and> v \<le> 1" using cf(2) rng by blast
  from cumulative_curve[OF n cfne rf] obtain hf vf where
    hf: "histogram cf (linspace 0 1 n_bins) = Inr hf"
        "map (\<lambda>c. np_div c (sum_list hf)) (cumsum hf) = map Fin vf"
        "length vf = n_bins - 1" "sorted vf" "last vf = 1" by blast
  from cumulative_curve[OF n ccne rc] obtain hc vc where
    hc: "histogram cc (linspace 0 1 n_bins) = Inr hc"
        "map (\<lambda>c. np_div c (sum_list hc)) (cumsum hc) = map Fin vc"
        "length vc = n_bins - 1" "sorted vc" "last vc = 1" by blast
  have run: "over_underconfidence_curve y y_pred p_pred n_bins =
      Inr \<lparr>ouc_bins = linspace 0 1 n_bins, conf_false_cum = map Fin vf,
           conf_correct_cum = map Fin vc\<rparr>"
    unfolding over_underconfidence_curve_def
    using eq pm cc(1) cf(1) hf(1,2) hc(1,2) by (simp add: bind_err_def Let_def)
  have pf: "nondecreasing (map Fin vf) \<and> final_is_one (map Fin vf)"
    using hf(3,4,5) n by (intro fin_curve_props) simp_all
  have pc: "nondecreasing (map Fin vc) \<and> final_is_one (map Fin vc)"
    using hc(3,4,5) n by (intro fin_curve_props) simp_all
  show ?thesis unfolding run using pf pc hf(3) hc(3) by simp
qed

text \<open>
  Claim C5. With the labels 0, 1, 0, 1 and the predictions 0, 1, 1, 1 (three correct,
  one incorrect), all confidences in [0, 1] and \<open>n_bins = 1\<close>, the edge array
  \<open>np.linspace(0, 1, n_bins)\<close> is the single edge 0: the histograms have no bin, both
  cumulative curves are empty and neither has a final element equal to 1. From two edges
  on, that is for \<open>n_bins\<close> of at least 2, both curves are non-decreasing and end with 1
  (lemma \<open>cumulative_curves_from_two_edges\<close>).
\<close>

theorem single_edge_curves_are_empty:
  "max_axis1 [[9/10, 1/10], [1/5, 4/5], [2/5, 3/5], [1/20, 19/20]] = Inr [9/10, 4/5, 3/5, 19/20] \<and>
   over_underconfidence_curve [0, 1, 0, 1] [0, 1, 1, 1]
       [[9/10, 1/10], [1/5, 4/5], [2/5, 3/5], [1/20, 19/20]] 1 =
     Inr \<lparr>ouc_bins = [0], conf_false_cum = [], conf_correct_cum = []\<rparr> \<and>
   \<not> final_is_one []"
proof -
  have a: "max_axis1 [[9/10, 1/10], [1/5, 4/5], [2/5, 3/5], [1/20, 19/20]] =
      Inr [9/10, 4/5, 3/5, 19/20]" by code_simp
  have b: "over_underconfidence_curve [0, 1, 0, 1] [0, 1, 1, 1]
       [[9/10, 1/10], [1/5, 4/5], [2/5, 3/5], [1/20, 19/20]] 1 =
     Inr \<lparr>ouc_bins = [0], conf_false_cum = [], conf_correct_cum = []\<rparr>" by code_simp
  have c: "\<not> final_is_one []" by (simp add: final_is_one_def)
  from a b c show ?thesis by blast
qed

section \<open>Properties of logsumexp\_illustration\<close>

lemma exp_one_bounds: "685 / 252 \<le> exp (1::real) \<and> exp (1::real) \<le> 1699 / 625"
proof -
  from Maclaurin_exp_le[of 1 8] obtain t :: real where
    t: "\<bar>t\<bar> \<le> 1" and e: "exp 1 = (\<Sum>m<8. 1 ^ m / fact m) + exp t / fact 8 * 1 ^ 8" by auto
  have s: "(\<Sum>m<8. (1::real) ^ m / fact m) = 685 / 252"
    by (simp add: lessThan_nat_numeral fact_numeral)
  have f: "fact 8 = (40320 :: real)" by (simp add: fact_numeral)
  have e': "exp (1::real) = 685 / 252 + exp t / 40320" using e unfolding s f by simp
  have "exp t \<le> exp 1" using t by simp
  also have "\<dots> \<le> 3" by (rule exp_le)
  finally have "exp t \<le> 3" .
  moreover have "0 < exp t" by simp
  ultimately show ?thesis unfolding e' by simp
qed

lemma exp_708: "exp (708::real) \<le> 2 ^ 1022"
proof -
  have u: "exp (1::real) \<le> 1699 / 625" using exp_one_bounds by simp
  have p: "(0::real) \<le> exp 1" by simp
  have a: "(1699 / 625 :: real) ^ 70 \<le> 2 ^ 101"
    by (simp add: power_divide pos_divide_le_eq)
  have b: "(1699 / 625 :: real) ^ 8 \<le> 2 ^ 12"
    by (simp add: power_divide pos_divide_le_eq)
  have "exp (708::real) = exp (of_nat 708 * 1)" by simp
  also have "\<dots> = exp 1 ^ 708" by (rule exp_of_nat_mult)
  also have "\<dots> \<le> (1699 / 625) ^ 708" by (rule power_mono[OF u p])
  also have "\<dots> = ((1699 / 625) ^ 70) ^ 10 * (1699 / 625) ^ 8"
    by (simp only: power_mult[symmetric] power_add[symmetric]) simp
  also have "\<dots> \<le> (2 ^ 101) ^ 10 * 2 ^ 12"
    by (intro mult_mono power_mono a b) simp_all
  also have "\<dots> = 2 ^ 1022" by (simp only: power_mult[symmetric] power_add[symmetric]) simp
  finally show ?thesis .
qed

lemma exp_710: "2 ^ 1024 \<le> exp (710::real)"
proof -
  have l: "685 / 252 \<le> exp (1::real)" using exp_one_bounds by simp
  have a: "(2::real) ^ 75 \<le> (685 / 252) ^ 52"
    by (simp add: power_divide pos_le_divide_eq)
  have b: "(2::real) ^ 49 \<le> (685 / 252) ^ 34"
    by (simp add: power_divide pos_le_divide_eq)
  have "(2::real) ^ 1024 = (2 ^ 75) ^ 13 * 2 ^ 49"
    by (simp only: power_mult[symmetric] power_add[symmetric]) simp
  also have "\<dots> \<le> ((685 / 252) ^ 52) ^ 13 * (685 / 252) ^ 34"
    by (intro mult_mono power_mono a b) simp_all
  also have "\<dots> = (685 / 252) ^ 710"
    by (simp only: power_mult[symmetric] power_add[symmetric]) simp
  also have "\<dots> \<le> exp 1 ^ 710" by (rule power_mono[OF l]) simp
  also have "\<dots> = exp (of_nat 710 * 1)" by (rule exp_of_nat_mult[symmetric])
  finally show ?thesis by simp
qed


lemma float64_range:
  "(2::real) ^ 1023 < float64_overflow" "float64_overflow \<le> 2 ^ 1024"
  "0 < float64_underflow" "float64_underflow < 1 / 2 ^ 1024"
  by (simp_all add: float64_overflow_def float64_underflow_def)

lemma fl_Fin:
  assumes "float64_underflow < v" "v < float64_overflow"
  shows "fl v = Fin v"
proof -
  have "0 < float64_overflow" using float64_range(1) by (meson less_trans zero_less_numeral zero_less_power)
  moreover have "0 < v" using assms(1) float64_range(3) by linarith
  ultimately show ?thesis using assms by (simp add: fl_def)
qed

lemma fl_nonneg:
  assumes "0 \<le> v" "v < float64_overflow"
  shows "fl v = Fin v \<or> (fl v = Fin 0 \<and> v \<le> float64_underflow)"
proof -
  have "0 < float64_overflow" using float64_range(1) by (meson less_trans zero_less_numeral zero_less_power)
  then show ?thesis using assms by (simp add: fl_def)
qed

lemma fl_overflow:
  assumes "float64_overflow \<le> v"
  shows "fl v = PosInf"
  using assms by (simp add: fl_def)

lemma illustration_value_unfold:
  assumes "N \<noteq> 0"
  shows "illustration_value t N =
           Inr [fmul (fl (1 / N))
                  (flog (fadd (fadd (Fin 0) (fexp (fmul (Fin N) (Fin (1 - t)))))
                              (fexp (fmul (Fin N) (Fin t)))))]"
  using assms
  by (simp add: illustration_value_def logsumexp_def column_stack2_def bind_err_def fsum_def)

lemma fexp_in_range:
  assumes "0 \<le> w" "w \<le> 708"
  shows "fexp (Fin w) = Fin (exp w)"
proof -
  have "exp w \<le> exp 708" using assms(2) by simp
  also have "\<dots> \<le> 2 ^ 1022" by (rule exp_708)
  also have "\<dots> < 2 ^ 1023" by simp
  also have "\<dots> < float64_overflow" by (rule float64_range(1))
  finally have up: "exp w < float64_overflow" .
  have "float64_underflow < 1 / 2 ^ 1024" by (rule float64_range(4))
  also have "\<dots> < 1" by simp
  also have "\<dots> \<le> exp w" using assms(1) by simp
  finally have "float64_underflow < exp w" .
  from fl_Fin[OF this up] show ?thesis by simp
qed

lemma illustration_finite:
  assumes t: "0 < t" "t < 1" and N: "1 \<le> N" and b: "N * max (1 - t) t \<le> 708"
  shows "\<exists>v. illustration_value t N = Inr [Fin v] \<and>
             max (1 - t) t \<le> v \<and> v \<le> max (1 - t) t + ln 2 / N"
proof -
  define M where "M = max (1 - t) t"
  have Mhalf: "1 / 2 \<le> M" and M1: "M < 1" using t by (simp_all add: M_def max_def)
  have Npos: "0 < N" using N by simp
  have NM: "N * M \<le> 708" using b by (simp add: M_def)
  have NMlow: "1 / 2 \<le> N * M"
  proof -
    have "1 / 2 \<le> 1 * M" using Mhalf by simp
    also have "\<dots> \<le> N * M" using N Mhalf by (intro mult_right_mono) simp_all
    finally show ?thesis .
  qed
  have Nup: "N \<le> 1416"
  proof -
    have "N * (1 / 2) \<le> N * M" using Npos Mhalf by (intro mult_left_mono) simp_all
    with NM show ?thesis by simp
  qed
  have ov: "708 < float64_overflow"
  proof -
    have "(708::real) < 2 ^ 1023" by simp
    with float64_range(1) show ?thesis by linarith
  qed
  have un: "float64_underflow < 1 / 2 ^ 1024" by (rule float64_range(4))
  have prod: "\<exists>w. fmul (Fin N) (Fin v) = Fin w \<and> 0 \<le> w \<and> w \<le> N * M \<and> (v = M \<longrightarrow> w = N * M)"
    if v: "0 < v" "v \<le> M" for v
  proof -
    have nv: "0 \<le> N * v" using Npos v(1) by simp
    have le: "N * v \<le> N * M" using Npos v(2) by simp
    with NM ov have "N * v < float64_overflow" by linarith
    from fl_nonneg[OF nv this] have c: "fl (N * v) = Fin (N * v) \<or> (fl (N * v) = Fin 0 \<and> N * v \<le> float64_underflow)" .
    have "\<not> N * M \<le> float64_underflow"
    proof -
      have "float64_underflow < 1 / 2" using un by (simp add: float64_underflow_def)
      with NMlow show ?thesis by linarith
    qed
    with c nv le show ?thesis using Npos Mhalf by auto
  qed
  have v1: "0 < 1 - t" "1 - t \<le> M" and v2: "0 < t" "t \<le> M" using t by (simp_all add: M_def)
  from prod[OF v1] obtain w1 where
    w1: "fmul (Fin N) (Fin (1 - t)) = Fin w1" "0 \<le> w1" "w1 \<le> N * M" "1 - t = M \<longrightarrow> w1 = N * M"
    by blast
  from prod[OF v2] obtain w2 where
    w2: "fmul (Fin N) (Fin t) = Fin w2" "0 \<le> w2" "w2 \<le> N * M" "t = M \<longrightarrow> w2 = N * M"
    by blast
  define a where "a = exp w1"
  define c where "c = exp w2"
  have e1: "fexp (Fin w1) = Fin a" unfolding a_def using w1(2,3) NM by (intro fexp_in_range) simp_all
  have e2: "fexp (Fin w2) = Fin c" unfolding c_def using w2(2,3) NM by (intro fexp_in_range) simp_all
  have a1: "1 \<le> a" and c1: "1 \<le> c" using w1(2) w2(2) by (simp_all add: a_def c_def)
  have aM: "a \<le> exp (N * M)" and cM: "c \<le> exp (N * M)"
    using w1(3) w2(3) by (simp_all add: a_def c_def)
  have one: "a = exp (N * M) \<or> c = exp (N * M)"
    using w1(4) w2(4) by (auto simp add: a_def c_def M_def max_def)
  have Mac: "exp (N * M) \<le> a + c" using one a1 c1 by auto
  have E: "exp (N * M) \<le> 2 ^ 1022"
  proof -
    have "exp (N * M) \<le> exp 708" using NM by simp
    also have "\<dots> \<le> 2 ^ 1022" by (rule exp_708)
    finally show ?thesis .
  qed
  have up: "a + c \<le> 2 * exp (N * M)" using aM cM by simp
  have acpos: "0 < a + c" using a1 c1 by simp
  have "a < float64_overflow" using aM E float64_range(1) by simp
  moreover have "float64_underflow < a" using a1 un by (simp add: float64_underflow_def)
  ultimately have fa: "fl a = Fin a" by (intro fl_Fin)
  have "a + c \<le> 2 ^ 1023" using up E by simp
  then have "a + c < float64_overflow" using float64_range(1) by linarith
  moreover have "float64_underflow < a + c" using a1 c1 un by (simp add: float64_underflow_def)
  ultimately have fs: "fl (a + c) = Fin (a + c)" by (intro fl_Fin)
  have sum: "fadd (fadd (Fin 0) (fexp (fmul (Fin N) (Fin (1 - t))))) (fexp (fmul (Fin N) (Fin t))) =
      Fin (a + c)"
    unfolding w1(1) w2(1) e1 e2 by (simp add: fa fs)
  have lg: "flog (Fin (a + c)) = Fin (ln (a + c))" using acpos by simp
  have l1: "N * M \<le> ln (a + c)"
  proof -
    have "ln (exp (N * M)) \<le> ln (a + c)" using Mac acpos by (subst ln_le_cancel_iff) simp_all
    then show ?thesis by simp
  qed
  have l2: "ln (a + c) \<le> ln 2 + N * M"
  proof -
    have "ln (a + c) \<le> ln (2 * exp (N * M))" using up acpos by (subst ln_le_cancel_iff) simp_all
    also have "\<dots> = ln 2 + N * M" by (simp add: ln_mult)
    finally show ?thesis .
  qed
  define v where "v = 1 / N * ln (a + c)"
  have veq: "v = ln (a + c) / N" by (simp add: v_def)
  have lo: "M \<le> v" unfolding veq using l1 Npos by (simp add: pos_le_divide_eq mult.commute)
  have hi: "v \<le> M + ln 2 / N"
  proof -
    have "ln (a + c) / N \<le> (ln 2 + N * M) / N" using l2 Npos by (simp add: divide_right_mono)
    also have "\<dots> = M + ln 2 / N" using Npos by (simp add: add_divide_distrib)
    finally show ?thesis unfolding veq .
  qed
  have inv: "fl (1 / N) = Fin (1 / N)"
  proof (rule fl_Fin)
    have "(1::real) / 1416 \<le> 1 / N" using Nup Npos by (simp add: frac_le)
    moreover have "float64_underflow < 1 / 1416" using un by (simp add: float64_underflow_def)
    ultimately show "float64_underflow < 1 / N" by linarith
    have "1 / N \<le> 1" using N by simp
    also have "\<dots> < 2 ^ 1023" by simp
    finally show "1 / N < float64_overflow" using float64_range(1) by linarith
  qed
  have l2le: "ln (2::real) \<le> 1" using ln_2_less_1 by simp
  have "ln 2 / N \<le> 1" using l2le N by (simp add: pos_divide_le_eq)
  with hi M1 have vup: "v < 2 ^ 1023" by simp
  have fv: "fl v = Fin v"
  proof (rule fl_Fin)
    have "float64_underflow < 1 / 2" using un by (simp add: float64_underflow_def)
    with lo Mhalf show "float64_underflow < v" by linarith
    show "v < float64_overflow" using vup float64_range(1) by linarith
  qed
  have m: "fmul (Fin (1 / N)) (Fin (ln (a + c))) = Fin v"
    unfolding fmul.simps v_def[symmetric] by (rule fv)
  have "illustration_value t N = Inr [Fin v]"
    unfolding illustration_value_unfold[OF Npos[THEN less_imp_neq, THEN not_sym]] sum lg inv m
    by (rule refl)
  with lo hi show ?thesis unfolding M_def by blast
qed

lemma fexp_nonneg:
  assumes "0 \<le> w"
  shows "fexp (Fin w) = PosInf \<or> (\<exists>c. fexp (Fin w) = Fin c \<and> 1 \<le> c)"
proof (cases "float64_overflow \<le> exp w")
  case True
  then show ?thesis by (simp add: fl_overflow)
next
  case False
  have "float64_underflow < 1 / 2 ^ 1024" by (rule float64_range(4))
  also have "\<dots> < 1" by simp
  also have "\<dots> \<le> exp w" using assms by simp
  finally have "float64_underflow < exp w" .
  from fl_Fin[OF this] False have "fexp (Fin w) = Fin (exp w)" by simp
  moreover have "1 \<le> exp w" using assms by simp
  ultimately show ?thesis by blast
qed

lemma fexp_product_nonneg:
  assumes "0 < N" "0 < v"
  shows "fexp (fmul (Fin N) (Fin v)) = PosInf \<or> (\<exists>c. fexp (fmul (Fin N) (Fin v)) = Fin c \<and> 1 \<le> c)"
proof -
  have nv: "0 \<le> N * v" using assms by simp
  show ?thesis
  proof (cases "float64_overflow \<le> N * v")
    case True
    then show ?thesis by (simp add: fl_overflow)
  next
    case False
    then have "N * v < float64_overflow" by simp
    from fl_nonneg[OF nv this] fexp_nonneg[OF nv] fexp_nonneg[of 0] show ?thesis by auto
  qed
qed

lemma fexp_product_overflow:
  assumes "710 \<le> N * v"
  shows "fexp (fmul (Fin N) (Fin v)) = PosInf"
proof (cases "float64_overflow \<le> N * v")
  case True
  then show ?thesis by (simp add: fl_overflow)
next
  case False
  have "float64_underflow < 1 / 2 ^ 1024" by (rule float64_range(4))
  also have "\<dots> < 710" by simp
  also have "\<dots> \<le> N * v" by (rule assms)
  finally have "float64_underflow < N * v" .
  from fl_Fin[OF this] False have p: "fmul (Fin N) (Fin v) = Fin (N * v)" by simp
  have "float64_overflow \<le> 2 ^ 1024" by (rule float64_range(2))
  also have "\<dots> \<le> exp 710" by (rule exp_710)
  also have "\<dots> \<le> exp (N * v)" using assms by simp
  finally have "float64_overflow \<le> exp (N * v)" .
  then show ?thesis unfolding p by (simp add: fl_overflow)
qed

lemma illustration_overflow:
  assumes t: "0 < t" "t < 1" and b: "710 \<le> N * max (1 - t) t"
  shows "\<exists>w. illustration_value t N = Inr [w] \<and> (w = PosInf \<or> w = NaN) \<and>
             (N < float64_overflow \<longrightarrow> w = PosInf)"
proof -
  define M where "M = max (1 - t) t"
  have M0: "0 < M" and M1: "M < 1" using t by (simp_all add: M_def max_def)
  have Npos: "0 < N"
  proof (rule ccontr)
    assume "\<not> 0 < N"
    then have "N * M \<le> 0" using M0 by (simp add: mult_nonpos_nonneg)
    with b show False by (simp add: M_def)
  qed
  define x1 where "x1 = fexp (fmul (Fin N) (Fin (1 - t)))"
  define x2 where "x2 = fexp (fmul (Fin N) (Fin t))"
  have p1: "x1 = PosInf \<or> (\<exists>c. x1 = Fin c \<and> 1 \<le> c)"
    unfolding x1_def using Npos t by (intro fexp_product_nonneg) simp_all
  have p2: "x2 = PosInf \<or> (\<exists>c. x2 = Fin c \<and> 1 \<le> c)"
    unfolding x2_def using Npos t by (intro fexp_product_nonneg) simp_all
  have inf: "x1 = PosInf \<or> x2 = PosInf"
  proof (cases "1 - t \<le> t")
    case True
    then have "710 \<le> N * t" using b by (simp add: max_def)
    then have "x2 = PosInf" unfolding x2_def by (rule fexp_product_overflow)
    then show ?thesis by simp
  next
    case False
    then have "710 \<le> N * (1 - t)" using b by (simp add: max_def)
    then have "x1 = PosInf" unfolding x1_def by (rule fexp_product_overflow)
    then show ?thesis by simp
  qed
  have z: "fadd (Fin 0) x1 = x1 \<or> fadd (Fin 0) x1 = PosInf"
  proof -
    from p1 show ?thesis
    proof
      assume "x1 = PosInf" then show ?thesis by simp
    next
      assume "\<exists>c. x1 = Fin c \<and> 1 \<le> c"
      then obtain c where c: "x1 = Fin c" "1 \<le> c" by blast
      have "float64_underflow < 1 / 2 ^ 1024" by (rule float64_range(4))
      also have "\<dots> < 1" by simp
      also have "\<dots> \<le> c" by (rule c(2))
      finally have u: "float64_underflow < c" .
      have "fl c = Fin c \<or> fl c = PosInf"
        using fl_Fin[OF u] fl_overflow[of c] by (cases "float64_overflow \<le> c") simp_all
      then show ?thesis unfolding c(1) by simp
    qed
  qed
  have sum: "fadd (fadd (Fin 0) x1) x2 = PosInf"
    using z p1 p2 inf by (auto simp add: fl_def)
  have Ninv: "0 < 1 / N" using Npos by simp
  have "1 / N \<le> 1 / 710"
  proof -
    have "710 \<le> N * 1" using b M1 Npos
      by (metis M_def less_eq_real_def mult_le_cancel_left_pos order_trans)
    then show ?thesis using Npos by (simp add: frac_le)
  qed
  also have "\<dots> < 2 ^ 1023" by simp
  also have "\<dots> < float64_overflow" by (rule float64_range(1))
  finally have iv: "1 / N < float64_overflow" .
  from fl_nonneg[OF less_imp_le[OF Ninv] iv]
  have c: "fl (1 / N) = Fin (1 / N) \<or> (fl (1 / N) = Fin 0 \<and> 1 / N \<le> float64_underflow)" .
  have val: "illustration_value t N = Inr [fmul (fl (1 / N)) PosInf]"
    unfolding illustration_value_unfold[OF Npos[THEN less_imp_neq, THEN not_sym]]
    using sum by (simp add: x1_def x2_def)
  have w: "fmul (fl (1 / N)) PosInf = PosInf \<or> fmul (fl (1 / N)) PosInf = NaN"
    using c Ninv by auto
  have fin: "fmul (fl (1 / N)) PosInf = PosInf" if "N < float64_overflow"
  proof -
    have "N < 2 ^ 1024" using that float64_range(2) by linarith
    then have "1 / 2 ^ 1024 < 1 / N" using Npos by (simp add: frac_less2)
    with float64_range(4) have "\<not> 1 / N \<le> float64_underflow" by linarith
    with c Ninv show ?thesis by auto
  qed
  from val w fin show ?thesis by auto
qed

lemma illustration_no_limit:
  assumes t: "0 < t" "t < 1"
  shows "\<not> approaches (illustration_value t) L"
proof
  assume "approaches (illustration_value t) L"
  then obtain N0 where
    n0: "\<forall>N \<ge> N0. \<exists>v. illustration_value t N = Inr [Fin v] \<and> \<bar>v - L\<bar> < 1"
    unfolding approaches_def using zero_less_one by blast
  define N where "N = max N0 1420"
  have "1 / 2 \<le> max (1 - t) t" using t by (simp add: max_def)
  then have "1420 * (1 / 2) \<le> N * max (1 - t) t"
    by (intro mult_mono) (simp_all add: N_def)
  then have "710 \<le> N * max (1 - t) t" by simp
  from illustration_overflow[OF t this] obtain w where
    "illustration_value t N = Inr [w]" "w = PosInf \<or> w = NaN" by blast
  moreover from n0 obtain v where "illustration_value t N = Inr [Fin v]"
    by (metis N_def max.cobounded1)
  ultimately show False by auto
qed


text \<open>
  Claim C8, as amended. For every \<open>t\<close> in (0, 1) the true maximum of the row
  \<open>[1 - t, t]\<close> is \<open>max (1 - t) t\<close>, which is below 1. For a sharpness \<open>N\<close> of at least 1
  with \<open>N * max (1 - t) t\<close> at most 708 (as for 5, 50 and 500, the values of the
  illustration), \<open>logsumexp\<close> returns a finite value between that maximum and the maximum
  plus \<open>ln 2 / N\<close>. For \<open>N * max (1 - t) t\<close> of 710 or more \<open>np.exp\<close> overflows and the
  value is \<open>inf\<close>. So the value approaches no number as \<open>N\<close> grows.
\<close>

theorem smooth_maximum_up_to_overflow:
  assumes "0 < t" "t < 1"
  shows "max (1 - t) t < 1 \<and>
         (\<forall>N. 1 \<le> N \<and> N * max (1 - t) t \<le> 708 \<longrightarrow>
            (\<exists>v. illustration_value t N = Inr [Fin v] \<and>
                 max (1 - t) t \<le> v \<and> v \<le> max (1 - t) t + ln 2 / N)) \<and>
         (\<forall>N. 710 \<le> N * max (1 - t) t \<and> N < float64_overflow \<longrightarrow>
            illustration_value t N = Inr [PosInf]) \<and>
         (\<forall>L. \<not> approaches (illustration_value t) L)"
proof -
  have m: "max (1 - t) t < 1" using assms by simp
  have f: "\<forall>N. 1 \<le> N \<and> N * max (1 - t) t \<le> 708 \<longrightarrow>
            (\<exists>v. illustration_value t N = Inr [Fin v] \<and>
                 max (1 - t) t \<le> v \<and> v \<le> max (1 - t) t + ln 2 / N)"
    using illustration_finite[OF assms] by blast
  have o: "\<forall>N. 710 \<le> N * max (1 - t) t \<and> N < float64_overflow \<longrightarrow>
            illustration_value t N = Inr [PosInf]"
  proof (intro allI impI)
    fix N assume a: "710 \<le> N * max (1 - t) t \<and> N < float64_overflow"
    from illustration_overflow[OF assms, of N] a
    show "illustration_value t N = Inr [PosInf]" by auto
  qed
  have l: "\<forall>L. \<not> approaches (illustration_value t) L"
    using illustration_no_limit[OF assms] by blast
  from m f o l show ?thesis by blast
qed

theorem smooth_maximum_up_to_overflow_witness:
  "(0::real) < 1/4 \<and> (1/4::real) < 1 \<and>
   (\<exists>v. illustration_value (1/4) 500 = Inr [Fin v] \<and> 3/4 \<le> v \<and> v \<le> 3/4 + ln 2 / 500) \<and>
   illustration_value (1/4) 1000 = Inr [PosInf] \<and>
   \<not> approaches (illustration_value (1/4)) 1"
proof -
  have a: "(0::real) < 1/4" and b: "(1/4::real) < 1" by simp_all
  have mx: "max (1 - 1/4) (1/4) = (3/4::real)" by simp
  have big: "(1000::real) < float64_overflow"
  proof -
    have "(1000::real) < 2 ^ 1023" by simp
    with float64_range(1) show ?thesis by linarith
  qed
  from smooth_maximum_up_to_overflow[OF a b]
  have f: "\<forall>N. 1 \<le> N \<and> N * (3/4) \<le> 708 \<longrightarrow>
            (\<exists>v. illustration_value (1/4) N = Inr [Fin v] \<and> 3/4 \<le> v \<and> v \<le> 3/4 + ln 2 / N)"
    and o: "\<forall>N. 710 \<le> N * (3/4) \<and> N < float64_overflow \<longrightarrow>
            illustration_value (1/4) N = Inr [PosInf]"
    and l: "\<forall>L. \<not> approaches (illustration_value (1/4)) L"
    unfolding mx by blast+
  from f[rule_format, of 500]
  have f5: "\<exists>v. illustration_value (1/4) 500 = Inr [Fin v] \<and> 3/4 \<le> v \<and> v \<le> 3/4 + ln 2 / 500"
    by simp
  from o[rule_format, of 1000] big
  have o1: "illustration_value (1/4) 1000 = Inr [PosInf]" by simp
  from a b f5 o1 l show ?thesis by blast
qed

text \<open>
  Claim C8, as first stated, at \<open>t = 1/2\<close>: for \<open>N = 500\<close> the value is below 0.51, for
  \<open>N = 1500\<close> it is \<open>inf\<close>, and it does not approach 1.
\<close>

theorem smooth_maximum_not_one_counterexample:
  "(\<exists>v. illustration_value (1/2) 500 = Inr [Fin v] \<and> v < 51/100) \<and>
   illustration_value (1/2) 1500 = Inr [PosInf] \<and>
   \<not> approaches (illustration_value (1/2)) 1"
proof -
  have a: "(0::real) < 1/2" and b: "(1/2::real) < 1" by simp_all
  have n: "(1::real) \<le> 500" and s: "500 * max (1 - 1/2) (1/2) \<le> (708::real)" by simp_all
  from illustration_finite[OF a b n s] obtain v where
    v: "illustration_value (1/2) 500 = Inr [Fin v]" "v \<le> max (1 - 1/2) (1/2) + ln 2 / 500" by blast
  have "ln (2::real) / 500 < 1 / 100" using ln_2_less_1 by simp
  with v(2) have "v < 51/100" by simp
  with v(1) have f: "\<exists>v. illustration_value (1/2) 500 = Inr [Fin v] \<and> v < 51/100" by blast
  have big: "(1500::real) < float64_overflow"
  proof -
    have "(1500::real) < 2 ^ 1023" by simp
    with float64_range(1) show ?thesis by linarith
  qed
  have "710 \<le> 1500 * max (1 - 1/2) (1/2 :: real)" by simp
  from illustration_overflow[OF a b this] big
  have o: "illustration_value (1/2) 1500 = Inr [PosInf]" by auto
  from f o illustration_no_limit[OF a b, of 1] show ?thesis by blast
qed

end
